theory Spec2Isabelle
  imports Main "HOL-Library.AList"
begin

section \<open>The segment registry of the query node (segments/manager.go)\<close>

text \<open>
  The development embeds \<^verbatim>\<open>internal/querynodev2/segments/manager.go\<close>: the filter
  algebra, the two-map segment manager and its operations. The registry mutex is not
  modelled: every operation is taken as one atomic step, which is what holding
  \<^verbatim>\<open>mgr.mu\<close> gives. Metrics and the event log are write-only sinks and are left out.
\<close>

subsection \<open>Enumerations\<close>

text \<open>
  \<^verbatim>\<open>SegmentType\<close> is \<^verbatim>\<open>commonpb.SegmentState\<close>, a generated enum whose declaration is
  not part of the sources. The manager names three of its values: the zero value
  \<^verbatim>\<open>SegmentStateNone\<close>, \<^verbatim>\<open>SegmentTypeGrowing\<close> and \<^verbatim>\<open>SegmentTypeSealed\<close>. The manager
  treats every other value alike; such a value is \<open>SegmentStateOther n\<close>, with a number
  that only tells the values apart.
\<close>

datatype SegmentType =
    SegmentStateNone
  | SegmentTypeGrowing
  | SegmentTypeSealed
  | SegmentStateOther nat

text \<open>
  Modelled from the spec: \<^verbatim>\<open>datapb.SegmentLevel\<close> is declared outside the sources; the
  specification gives the levels L0, L1 and L2. The manager only compares with L0.
\<close>

datatype SegmentLevel = SegmentLevel_L0 | SegmentLevel_L1 | SegmentLevel_L2

text \<open>
  \<^verbatim>\<open>querypb.DataScope\<close> is a generated enum as well. \<^verbatim>\<open>Remove\<close> switches on
  \<^verbatim>\<open>DataScope_Streaming\<close>, \<^verbatim>\<open>DataScope_Historical\<close> and \<^verbatim>\<open>DataScope_All\<close>; every other
  value of the underlying integer type (the zero value of the enum among them) is
  \<open>DataScope_Other n\<close>, with a number that only tells the values apart.
\<close>

datatype DataScope =
    DataScope_Streaming
  | DataScope_Historical
  | DataScope_All
  | DataScope_Other nat

text \<open>
  Modelled from the spec: the options of \<^verbatim>\<open>Segment.Release\<close> are declared outside the
  sources; a release has scope Data or All, and a release without options has scope All.
\<close>

datatype ReleaseScope = ReleaseScopeData | ReleaseScopeAll

text \<open>
  Modelled from the spec: the package \<^verbatim>\<open>merr\<close> and the errors of \<^verbatim>\<open>Segment.RLock\<close> are
  declared outside the sources. \<open>SegmentNotLoaded\<close> is the value of
  \<^verbatim>\<open>merr.WrapErrSegmentNotLoaded(id, msg)\<close>; \<open>PinAcquisitionFailed\<close> is the error with which a
  segment that is being released refuses a read lock.
\<close>

datatype error =
    SegmentNotLoaded int string
  | PinAcquisitionFailed

text \<open>A panic, with its message.\<close>

datatype panic = Panic string

subsection \<open>Segments\<close>

text \<open>
  Modelled from the spec: \<^verbatim>\<open>Segment\<close> is an interface implemented outside the sources. A
  segment is the record of the attributes that the manager and its filters read through
  the interface. Identifiers and versions are \<^verbatim>\<open>int64\<close>; the manager only compares them,
  so they are integers. \<open>RLockResult\<close> is what the segment's \<^verbatim>\<open>RLock()\<close> returns when the
  manager calls it: \<open>None\<close> for \<^verbatim>\<open>nil\<close>, or the error with which the segment refuses the
  pin.

  Go shares segments by reference. Here a map holds the segment's value, and an action
  that mutates a segment writes the new value back into the map it was read from.
\<close>

record segment =
  ID :: int
  Type :: SegmentType
  Version :: int
  Collection :: int
  Partition :: int
  Shard :: string
  Level :: SegmentLevel
  InsertCount :: int
  RLockResult :: "error option"

text \<open>
  Modelled from the spec: \<^verbatim>\<open>CASVersion(old, new)\<close> is a compare-and-swap on the version.
  It returns whether it swapped, and the segment after the call.
\<close>

definition CASVersion :: "int \<Rightarrow> int \<Rightarrow> segment \<Rightarrow> bool \<times> segment" where
  "CASVersion old new segment =
     (if Version segment = old then (True, segment\<lparr>Version := new\<rparr>) else (False, segment))"

subsection \<open>Filters\<close>

text \<open>The three implementations of the interface \<^verbatim>\<open>SegmentFilter\<close>.\<close>

datatype SegmentFilter =
    SegmentFilterFunc "segment \<Rightarrow> bool"
  | SegmentIDFilter int
  | SegmentTypeFilter SegmentType

fun Filter :: "SegmentFilter \<Rightarrow> segment \<Rightarrow> bool" where
  "Filter (SegmentFilterFunc f) segment = f segment"
| "Filter (SegmentIDFilter f) segment = (ID segment = f)"
| "Filter (SegmentTypeFilter f) segment = (Type segment = f)"

text \<open>The method \<^verbatim>\<open>SegmentType()\<close> of a filter: the type hint and whether there is one.\<close>

fun SegmentType_hint :: "SegmentFilter \<Rightarrow> SegmentType \<times> bool" where
  "SegmentType_hint (SegmentFilterFunc f) = (SegmentStateNone, False)"
| "SegmentType_hint (SegmentIDFilter f) = (SegmentStateNone, False)"
| "SegmentType_hint (SegmentTypeFilter f) = (f, True)"

text \<open>The method \<^verbatim>\<open>SegmentIDs()\<close>: the id hint and whether there is one.\<close>

fun SegmentIDs :: "SegmentFilter \<Rightarrow> int list \<times> bool" where
  "SegmentIDs (SegmentFilterFunc f) = ([], False)"
| "SegmentIDs (SegmentIDFilter f) = ([f], True)"
| "SegmentIDs (SegmentTypeFilter f) = ([], False)"

definition WithSkipEmpty :: SegmentFilter where
  "WithSkipEmpty = SegmentFilterFunc (\<lambda>segment. InsertCount segment > 0)"

definition WithPartition :: "int \<Rightarrow> SegmentFilter" where
  "WithPartition partitionID = SegmentFilterFunc (\<lambda>segment. Partition segment = partitionID)"

definition WithChannel :: "string \<Rightarrow> SegmentFilter" where
  "WithChannel channel = SegmentFilterFunc (\<lambda>segment. Shard segment = channel)"

definition WithType :: "SegmentType \<Rightarrow> SegmentFilter" where
  "WithType typ = SegmentTypeFilter typ"

definition WithID :: "int \<Rightarrow> SegmentFilter" where
  "WithID segmentID = SegmentIDFilter segmentID"

definition WithLevel :: "SegmentLevel \<Rightarrow> SegmentFilter" where
  "WithLevel level = SegmentFilterFunc (\<lambda>segment. Level segment = level)"

subsection \<open>Segment actions\<close>

text \<open>
  A \<^verbatim>\<open>SegmentAction\<close> mutates the segment and returns a flag. An action that loops may
  not return: its result is an option, \<open>None\<close> when it never returns.

  The loop of \<^verbatim>\<open>IncreaseVersion\<close> reads the version once, into \<^verbatim>\<open>oldVersion\<close>, and retries
  the compare-and-swap with that same value for as long as it fails.
\<close>

type_synonym SegmentAction = "segment \<Rightarrow> (bool \<times> segment) option"

partial_function (option) IncreaseVersion_loop ::
  "int \<Rightarrow> int \<Rightarrow> segment \<Rightarrow> (bool \<times> segment) option" where
  "IncreaseVersion_loop oldVersion version segment =
     (if oldVersion < version then
        (let r = CASVersion oldVersion version segment in
         if fst r then Some (True, snd r)
         else IncreaseVersion_loop oldVersion version (snd r))
      else Some (False, segment))"

declare IncreaseVersion_loop.simps [code]

definition IncreaseVersion :: "int \<Rightarrow> SegmentAction" where
  "IncreaseVersion version segment = IncreaseVersion_loop (Version segment) version segment"

subsection \<open>The manager\<close>

text \<open>
  The calls the manager makes on segments are effects on objects it does not own. They
  are recorded, in order, in a trace.
\<close>

datatype call =
    Call_RLock segment
  | Call_RUnlock segment
  | Call_Release segment ReleaseScope

text \<open>
  The two Go maps are association lists: \<open>map_of\<close> reads a key, \<open>AList.update\<close> stores
  one and \<open>AList.delete\<close> deletes one. Go leaves the iteration order of a map open; the
  order of the list is one such order. Beside the maps of the struct, the state holds
  the trace of calls on segments and the work lists of the goroutines that \<^verbatim>\<open>Put\<close> has
  spawned (each list is released by \<open>releaseReplaced\<close> when its goroutine runs).
\<close>

record segmentManager =
  growingSegments :: "(int \<times> segment) list"
  sealedSegments :: "(int \<times> segment) list"
  calls :: "call list"
  goroutines :: "segment list list"

definition NewSegmentManager :: segmentManager where
  "NewSegmentManager =
     \<lparr>growingSegments = [], sealedSegments = [], calls = [], goroutines = []\<rparr>"

definition RLock :: "segment \<Rightarrow> segmentManager \<Rightarrow> error option \<times> segmentManager" where
  "RLock segment mgr = (RLockResult segment, mgr\<lparr>calls := calls mgr @ [Call_RLock segment]\<rparr>)"

definition RUnlock :: "segment \<Rightarrow> segmentManager \<Rightarrow> segmentManager" where
  "RUnlock segment mgr = mgr\<lparr>calls := calls mgr @ [Call_RUnlock segment]\<rparr>"

text \<open>
  Modelled from the spec: \<^verbatim>\<open>Segment.Release(opts...)\<close> is implemented outside the sources.
  The scope of a release is the one its last option sets, and All when there is none.
\<close>

definition releaseScope :: "ReleaseScope list \<Rightarrow> ReleaseScope" where
  "releaseScope opts = fold (\<lambda>opt scope. opt) opts ReleaseScopeAll"

definition Release :: "segment \<Rightarrow> ReleaseScope list \<Rightarrow> segmentManager \<Rightarrow> segmentManager" where
  "Release segment opts mgr =
     mgr\<lparr>calls := calls mgr @ [Call_Release segment (releaseScope opts)]\<rparr>"

text \<open>The function \<^verbatim>\<open>remove\<close>: it releases the segment (and always returns true).\<close>

definition remove :: "segment \<Rightarrow> segmentManager \<Rightarrow> segmentManager" where
  "remove segment mgr = Release segment [] mgr"

subsubsection \<open>Put\<close>

text \<open>
  The map of the manager for a segment type, and the assignment to it. \<^verbatim>\<open>Put\<close> picks its
  \<^verbatim>\<open>targetMap\<close> by this switch, and \<^verbatim>\<open>rangeWithFilter\<close> its candidates; both are only
  used with the growing and the sealed type.
\<close>

definition targetMap :: "SegmentType \<Rightarrow> segmentManager \<Rightarrow> (int \<times> segment) list" where
  "targetMap segmentType mgr =
     (case segmentType of
        SegmentTypeGrowing \<Rightarrow> growingSegments mgr
      | SegmentTypeSealed \<Rightarrow> sealedSegments mgr
      | _ \<Rightarrow> [])"

definition setTargetMap ::
  "SegmentType \<Rightarrow> (int \<times> segment) list \<Rightarrow> segmentManager \<Rightarrow> segmentManager" where
  "setTargetMap segmentType m mgr =
     (case segmentType of
        SegmentTypeGrowing \<Rightarrow> mgr\<lparr>growingSegments := m\<rparr>
      | SegmentTypeSealed \<Rightarrow> mgr\<lparr>sealedSegments := m\<rparr>
      | _ \<Rightarrow> mgr)"

text \<open>The loop of \<^verbatim>\<open>Put\<close> over the incoming segments, with \<^verbatim>\<open>replacedSegment\<close>.\<close>

fun Put_loop ::
  "SegmentType \<Rightarrow> segment list \<Rightarrow> segmentManager \<times> segment list
   \<Rightarrow> segmentManager \<times> segment list" where
  "Put_loop segmentType [] (mgr, replacedSegment) = (mgr, replacedSegment)"
| "Put_loop segmentType (segment # segments) (mgr, replacedSegment) =
     (case map_of (targetMap segmentType mgr) (ID segment) of
        Some oldSegment \<Rightarrow>
          if Version oldSegment \<ge> Version segment
          then Put_loop segmentType segments (Release segment [] mgr, replacedSegment)
          else Put_loop segmentType segments
                 (setTargetMap segmentType
                    (AList.update (ID segment) segment (targetMap segmentType mgr)) mgr,
                  replacedSegment @ [oldSegment])
      | None \<Rightarrow>
          Put_loop segmentType segments
            (setTargetMap segmentType
               (AList.update (ID segment) segment (targetMap segmentType mgr)) mgr,
             replacedSegment))"

text \<open>
  \<^verbatim>\<open>Put\<close> panics on a segment type that is neither growing nor sealed. After the loop
  it spawns one goroutine for the replaced segments, when there are any.
\<close>

definition Put :: "SegmentType \<Rightarrow> segment list \<Rightarrow> segmentManager \<Rightarrow> panic + segmentManager" where
  "Put segmentType segments mgr =
     (if segmentType = SegmentTypeGrowing \<or> segmentType = SegmentTypeSealed then
        (let r = Put_loop segmentType segments (mgr, []) in
         if snd r \<noteq> [] then Inr ((fst r)\<lparr>goroutines := goroutines (fst r) @ [snd r]\<rparr>)
         else Inr (fst r))
      else Inl (Panic ''unexpected segment type''))"

text \<open>The body of the goroutine that \<^verbatim>\<open>Put\<close> spawns.\<close>

definition releaseReplaced :: "segment list \<Rightarrow> segmentManager \<Rightarrow> segmentManager" where
  "releaseReplaced replacedSegment mgr = fold remove replacedSegment mgr"

subsubsection \<open>Lookups\<close>

definition Get :: "int \<Rightarrow> segmentManager \<Rightarrow> segment option" where
  "Get segmentID mgr =
     (case map_of (growingSegments mgr) segmentID of
        Some segment \<Rightarrow> Some segment
      | None \<Rightarrow> map_of (sealedSegments mgr) segmentID)"

definition GetWithType :: "int \<Rightarrow> SegmentType \<Rightarrow> segmentManager \<Rightarrow> segment option" where
  "GetWithType segmentID typ mgr =
     (case typ of
        SegmentTypeSealed \<Rightarrow> map_of (sealedSegments mgr) segmentID
      | SegmentTypeGrowing \<Rightarrow> map_of (growingSegments mgr) segmentID
      | _ \<Rightarrow> None)"

text \<open>The function \<^verbatim>\<open>filter\<close>: the first filter that rejects the segment decides.\<close>

fun filter_segment :: "segment \<Rightarrow> SegmentFilter list \<Rightarrow> bool" where
  "filter_segment segment [] = True"
| "filter_segment segment (f # filters) =
     (if \<not> Filter f segment then False else filter_segment segment filters)"

subsubsection \<open>Filtered iteration\<close>

text \<open>The variables that the first loop of \<^verbatim>\<open>rangeWithFilter\<close> sets from the filters.\<close>

record hints =
  hSegType :: SegmentType
  hHasSegType :: bool
  hHasSegIDs :: bool
  hSegmentIDs :: "int list"
  hOtherFilters :: "SegmentFilter list"

definition noHints :: hints where
  "noHints = \<lparr>hSegType = SegmentStateNone, hHasSegType = False, hHasSegIDs = False,
              hSegmentIDs = [], hOtherFilters = []\<rparr>"

text \<open>
  A filter with a type hint sets \<^verbatim>\<open>segType\<close> and is dropped; one with an id hint adds its
  ids to the set \<^verbatim>\<open>segmentIDs\<close> (a list without duplicates) and is dropped; any other
  filter is kept in \<^verbatim>\<open>otherFilters\<close>.
\<close>

fun collectHints :: "SegmentFilter list \<Rightarrow> hints \<Rightarrow> hints" where
  "collectHints [] h = h"
| "collectHints (f # filters) h =
     (if snd (SegmentType_hint f) then
        collectHints filters (h\<lparr>hSegType := fst (SegmentType_hint f), hHasSegType := True\<rparr>)
      else if snd (SegmentIDs f) then
        collectHints filters
          (h\<lparr>hHasSegIDs := True,
             hSegmentIDs := fold List.insert (fst (SegmentIDs f)) (hSegmentIDs h)\<rparr>)
      else collectHints filters (h\<lparr>hOtherFilters := hOtherFilters h @ [f]\<rparr>))"

fun mergedFilter :: "SegmentFilter list \<Rightarrow> segment \<Rightarrow> bool" where
  "mergedFilter [] info = True"
| "mergedFilter (f # otherFilters) info =
     (if \<not> Filter f info then False else mergedFilter otherFilters info)"

text \<open>
  The keys of the map \<^verbatim>\<open>candidates\<close>. Go ranges over them in an order it leaves open;
  the model takes sealed first, so a run that ranges over the growing map first is not
  one of its runs. The theorems below are about results as sets, about states, or about
  inputs with a single candidate entry; none of them depends on this order.
\<close>

definition candidates :: "SegmentType \<Rightarrow> bool \<Rightarrow> SegmentType list" where
  "candidates segType hasSegType =
     (case segType of
        SegmentTypeSealed \<Rightarrow> [SegmentTypeSealed]
      | SegmentTypeGrowing \<Rightarrow> [SegmentTypeGrowing]
      | _ \<Rightarrow> if \<not> hasSegType then [SegmentTypeSealed, SegmentTypeGrowing] else [])"

text \<open>
  The inner loops. The callback \<^verbatim>\<open>process\<close> is a closure: it takes and returns the
  manager and the variables it captures. The loop reads the map as it is when a key is
  reached, so an entry that the callback has deleted is not produced; when the callback
  returns false the loop over this map ends (the loop over the candidates goes on).
\<close>

fun rangeKeys ::
  "(int \<Rightarrow> SegmentType \<Rightarrow> segment \<Rightarrow> segmentManager \<times> 'c \<Rightarrow> bool \<times> segmentManager \<times> 'c)
   \<Rightarrow> (segment \<Rightarrow> bool) \<Rightarrow> SegmentType \<Rightarrow> int list
   \<Rightarrow> segmentManager \<times> 'c \<Rightarrow> segmentManager \<times> 'c" where
  "rangeKeys process merged segType [] st = st"
| "rangeKeys process merged segType (segmentID # keys) st =
     (case map_of (targetMap segType (fst st)) segmentID of
        Some segment \<Rightarrow>
          if merged segment then
            (let r = process segmentID segType segment st in
             if \<not> fst r then snd r
             else rangeKeys process merged segType keys (snd r))
          else rangeKeys process merged segType keys st
      | None \<Rightarrow> rangeKeys process merged segType keys st)"

text \<open>
  The loop over the candidates: with an id hint the keys are the hinted ids, otherwise
  the keys of the candidate map.
\<close>

fun rangeCandidates ::
  "(int \<Rightarrow> SegmentType \<Rightarrow> segment \<Rightarrow> segmentManager \<times> 'c \<Rightarrow> bool \<times> segmentManager \<times> 'c)
   \<Rightarrow> (segment \<Rightarrow> bool) \<Rightarrow> bool \<Rightarrow> int list \<Rightarrow> SegmentType list
   \<Rightarrow> segmentManager \<times> 'c \<Rightarrow> segmentManager \<times> 'c" where
  "rangeCandidates process merged hasSegIDs segmentIDs [] st = st"
| "rangeCandidates process merged hasSegIDs segmentIDs (segType # rest) st =
     rangeCandidates process merged hasSegIDs segmentIDs rest
       (rangeKeys process merged segType
          (if hasSegIDs then segmentIDs else map fst (targetMap segType (fst st))) st)"

definition rangeWithFilter ::
  "(int \<Rightarrow> SegmentType \<Rightarrow> segment \<Rightarrow> segmentManager \<times> 'c \<Rightarrow> bool \<times> segmentManager \<times> 'c)
   \<Rightarrow> SegmentFilter list \<Rightarrow> segmentManager \<times> 'c \<Rightarrow> segmentManager \<times> 'c" where
  "rangeWithFilter process filters st =
     (let h = collectHints filters noHints in
      rangeCandidates process (mergedFilter (hOtherFilters h)) (hHasSegIDs h) (hSegmentIDs h)
        (candidates (hSegType h) (hHasSegType h)) st)"

subsubsection \<open>Reading and pinning\<close>

definition GetBy :: "SegmentFilter list \<Rightarrow> segmentManager \<Rightarrow> segment list" where
  "GetBy filters mgr =
     snd (rangeWithFilter
            (\<lambda>segmentID segType segment st. (True, fst st, snd st @ [segment]))
            filters (mgr, []))"

text \<open>
  The callback of \<^verbatim>\<open>GetAndPinBy\<close> captures \<^verbatim>\<open>ret\<close> and \<^verbatim>\<open>err\<close>. It assigns \<^verbatim>\<open>err\<close> at every
  call of \<^verbatim>\<open>RLock\<close>, also when the lock is granted.
\<close>

definition GetAndPinBy_process ::
  "int \<Rightarrow> SegmentType \<Rightarrow> segment \<Rightarrow> segmentManager \<times> segment list \<times> error option
   \<Rightarrow> bool \<times> segmentManager \<times> segment list \<times> error option" where
  "GetAndPinBy_process segmentID segType segment st =
     (if Level segment = SegmentLevel_L0 then (True, st)
      else
        (let r = RLock segment (fst st) in
         if fst r \<noteq> None then (False, snd r, fst (snd st), fst r)
         else (True, snd r, fst (snd st) @ [segment], fst r)))"

text \<open>
  \<^verbatim>\<open>GetAndPinBy\<close> returns \<^verbatim>\<open>ret, nil\<close>. The deferred function runs before the return
  and unlocks the segments of \<^verbatim>\<open>ret\<close> when \<^verbatim>\<open>err\<close> is not nil. The result is the returned
  pair and the manager after the call.
\<close>

definition GetAndPinBy ::
  "SegmentFilter list \<Rightarrow> segmentManager \<Rightarrow> (segment list \<times> error option) \<times> segmentManager" where
  "GetAndPinBy filters mgr =
     (let st = rangeWithFilter GetAndPinBy_process filters (mgr, [], None);
          ret = fst (snd st);
          err = snd (snd st)
      in ((ret, None), (if err \<noteq> None then fold RUnlock ret (fst st) else fst st)))"

text \<open>
  One lock attempt of \<^verbatim>\<open>GetAndPin\<close>: on a hit the segment is read-locked and appended to
  \<^verbatim>\<open>lockedSegments\<close>, and an error of \<^verbatim>\<open>RLock\<close> ends the call.
\<close>

definition pinHit ::
  "segment option \<Rightarrow> segment list \<times> segmentManager
   \<Rightarrow> error option \<times> segment list \<times> segmentManager" where
  "pinHit hit st =
     (case hit of
        None \<Rightarrow> (None, st)
      | Some segment \<Rightarrow>
          (let r = RLock segment (snd st) in
           if fst r \<noteq> None then (fst r, fst st, snd r)
           else (None, fst st @ [segment], snd r)))"

definition filterHit :: "segment option \<Rightarrow> SegmentFilter list \<Rightarrow> segment option" where
  "filterHit found filters =
     (case found of
        None \<Rightarrow> None
      | Some segment \<Rightarrow> if filter_segment segment filters then Some segment else None)"

text \<open>
  The loop of \<^verbatim>\<open>GetAndPin\<close> over the requested ids. It returns the value of \<^verbatim>\<open>err\<close> when
  the loop ends (not nil exactly when the loop was left by a \<^verbatim>\<open>return nil, err\<close>), the
  list \<^verbatim>\<open>lockedSegments\<close> and the manager.
\<close>

fun GetAndPin_loop ::
  "int list \<Rightarrow> SegmentFilter list \<Rightarrow> segment list \<times> segmentManager
   \<Rightarrow> error option \<times> segment list \<times> segmentManager" where
  "GetAndPin_loop [] filters st = (None, st)"
| "GetAndPin_loop (segmentID # segments) filters st =
     (let growing = map_of (growingSegments (snd st)) segmentID;
          sealed = map_of (sealedSegments (snd st)) segmentID
      in
        if (case sealed of Some s \<Rightarrow> Level s = SegmentLevel_L0 | None \<Rightarrow> False)
        then GetAndPin_loop segments filters st
        else
          (let growingHit = filterHit growing filters;
               sealedHit = filterHit sealed filters;
               r1 = pinHit growingHit st
           in
             if fst r1 \<noteq> None then r1
             else
               (let r2 = pinHit sealedHit (snd r1) in
                if fst r2 \<noteq> None then r2
                else if growingHit = None \<and> sealedHit = None then
                  (Some (SegmentNotLoaded segmentID ''segment not found''), snd r2)
                else GetAndPin_loop segments filters (snd r2))))"

definition GetAndPin ::
  "int list \<Rightarrow> SegmentFilter list \<Rightarrow> segmentManager
   \<Rightarrow> (segment list \<times> error option) \<times> segmentManager" where
  "GetAndPin segments filters mgr =
     (let r = GetAndPin_loop segments filters ([], mgr);
          err = fst r;
          lockedSegments = fst (snd r)
      in
        if err \<noteq> None then (([], err), fold RUnlock lockedSegments (snd (snd r)))
        else ((lockedSegments, None), snd (snd r)))"

definition Unpin :: "segment list \<Rightarrow> segmentManager \<Rightarrow> segmentManager" where
  "Unpin segments mgr = fold RUnlock segments mgr"

subsubsection \<open>Updating\<close>

text \<open>
  The callback of \<^verbatim>\<open>UpdateBy\<close> captures the counter \<^verbatim>\<open>updated\<close>. The action mutates the
  segment it is given; the new value is written back to the entry it was read from.
  When the action does not return, neither does \<^verbatim>\<open>UpdateBy\<close>: the counter is \<open>None\<close> from
  then on and the result is \<open>None\<close>. One Go object stored in both maps is two values
  here, each updated and counted on its own; the theorems below are about the stored
  versions and do not state the counter.
\<close>

definition UpdateBy_process ::
  "SegmentAction \<Rightarrow> int \<Rightarrow> SegmentType \<Rightarrow> segment \<Rightarrow> segmentManager \<times> nat option
   \<Rightarrow> bool \<times> segmentManager \<times> nat option" where
  "UpdateBy_process action segmentID segType segment st =
     (case snd st of
        None \<Rightarrow> (True, st)
      | Some updated \<Rightarrow>
          (case action segment of
             None \<Rightarrow> (True, fst st, None)
           | Some r \<Rightarrow>
               (True,
                setTargetMap segType
                  (AList.update segmentID (snd r) (targetMap segType (fst st))) (fst st),
                Some (if fst r then updated + 1 else updated))))"

definition UpdateBy ::
  "SegmentAction \<Rightarrow> SegmentFilter list \<Rightarrow> segmentManager \<Rightarrow> (nat \<times> segmentManager) option" where
  "UpdateBy action filters mgr =
     (let st = rangeWithFilter (UpdateBy_process action) filters (mgr, Some 0) in
      case snd st of
        None \<Rightarrow> None
      | Some updated \<Rightarrow> Some (updated, fst st))"

subsubsection \<open>Removing\<close>

definition removeSegmentWithType ::
  "SegmentType \<Rightarrow> int \<Rightarrow> segmentManager \<Rightarrow> segment option \<times> segmentManager" where
  "removeSegmentWithType typ segmentID mgr =
     (case typ of
        SegmentTypeGrowing \<Rightarrow>
          (case map_of (growingSegments mgr) segmentID of
             Some s \<Rightarrow>
               (Some s, mgr\<lparr>growingSegments := AList.delete segmentID (growingSegments mgr)\<rparr>)
           | None \<Rightarrow> (None, mgr))
      | SegmentTypeSealed \<Rightarrow>
          (case map_of (sealedSegments mgr) segmentID of
             Some s \<Rightarrow>
               (Some s, mgr\<lparr>sealedSegments := AList.delete segmentID (sealedSegments mgr)\<rparr>)
           | None \<Rightarrow> (None, mgr))
      | _ \<Rightarrow> (None, mgr))"

text \<open>The end of \<^verbatim>\<open>Remove\<close>: a segment that is not nil is handed to \<^verbatim>\<open>remove\<close>.\<close>

definition removeIfNotNil :: "segment option \<Rightarrow> segmentManager \<Rightarrow> segmentManager" where
  "removeIfNotNil found mgr = (case found of None \<Rightarrow> mgr | Some segment \<Rightarrow> remove segment mgr)"

definition countIfNotNil :: "segment option \<Rightarrow> nat" where
  "countIfNotNil found = (case found of None \<Rightarrow> 0 | Some segment \<Rightarrow> 1)"

definition Remove :: "int \<Rightarrow> DataScope \<Rightarrow> segmentManager \<Rightarrow> (nat \<times> nat) \<times> segmentManager" where
  "Remove segmentID scope mgr =
     (case scope of
        DataScope_Streaming \<Rightarrow>
          (let g = removeSegmentWithType SegmentTypeGrowing segmentID mgr in
           ((countIfNotNil (fst g), 0), removeIfNotNil (fst g) (snd g)))
      | DataScope_Historical \<Rightarrow>
          (let s = removeSegmentWithType SegmentTypeSealed segmentID mgr in
           ((0, countIfNotNil (fst s)), removeIfNotNil (fst s) (snd s)))
      | DataScope_All \<Rightarrow>
          (let g = removeSegmentWithType SegmentTypeGrowing segmentID mgr;
               s = removeSegmentWithType SegmentTypeSealed segmentID (snd g)
           in ((countIfNotNil (fst g), countIfNotNil (fst s)),
               removeIfNotNil (fst s) (removeIfNotNil (fst g) (snd s))))
      | DataScope_Other n \<Rightarrow> ((0, 0), mgr))"

text \<open>
  The callback of \<^verbatim>\<open>RemoveBy\<close> captures \<^verbatim>\<open>removeSegments\<close>, \<^verbatim>\<open>removeGrowing\<close> and
  \<^verbatim>\<open>removeSealed\<close>.
\<close>

definition RemoveBy_process ::
  "int \<Rightarrow> SegmentType \<Rightarrow> segment \<Rightarrow> segmentManager \<times> segment list \<times> nat \<times> nat
   \<Rightarrow> bool \<times> segmentManager \<times> segment list \<times> nat \<times> nat" where
  "RemoveBy_process segmentID segType segment st =
     (let r = removeSegmentWithType segType segmentID (fst st);
          removeSegments = fst (snd st);
          removeGrowing = fst (snd (snd st));
          removeSealed = snd (snd (snd st))
      in
        case fst r of
          None \<Rightarrow> (True, snd r, removeSegments, removeGrowing, removeSealed)
        | Some s \<Rightarrow>
            (True, snd r, removeSegments @ [s],
             (if segType = SegmentTypeGrowing then removeGrowing + 1 else removeGrowing),
             (if segType = SegmentTypeSealed then removeSealed + 1 else removeSealed)))"

definition RemoveBy :: "SegmentFilter list \<Rightarrow> segmentManager \<Rightarrow> (nat \<times> nat) \<times> segmentManager" where
  "RemoveBy filters mgr =
     (let st = rangeWithFilter RemoveBy_process filters (mgr, [], 0, 0);
          removeSegments = fst (snd st)
      in (snd (snd st), fold remove removeSegments (fst st)))"

text \<open>The two loops of \<^verbatim>\<open>Clear\<close>: each entry is deleted from its map and removed.\<close>

fun Clear_growing :: "(int \<times> segment) list \<Rightarrow> segmentManager \<Rightarrow> segmentManager" where
  "Clear_growing [] mgr = mgr"
| "Clear_growing (entry # entries) mgr =
     Clear_growing entries
       (remove (snd entry)
          (mgr\<lparr>growingSegments := AList.delete (fst entry) (growingSegments mgr)\<rparr>))"

fun Clear_sealed :: "(int \<times> segment) list \<Rightarrow> segmentManager \<Rightarrow> segmentManager" where
  "Clear_sealed [] mgr = mgr"
| "Clear_sealed (entry # entries) mgr =
     Clear_sealed entries
       (remove (snd entry)
          (mgr\<lparr>sealedSegments := AList.delete (fst entry) (sealedSegments mgr)\<rparr>))"

definition Clear :: "segmentManager \<Rightarrow> segmentManager" where
  "Clear mgr =
     (let m = Clear_growing (growingSegments mgr) mgr in Clear_sealed (sealedSegments m) m)"

subsection \<open>Sequences of operations\<close>

text \<open>
  The operations that change the registry, as data, so that properties of every sequence
  of calls can be stated. An operation has no next state when \<^verbatim>\<open>Put\<close> panics (or when
  an action never returns); a sequence ends there.
\<close>

datatype operation =
    Op_Put SegmentType "segment list"
  | Op_UpdateBy_IncreaseVersion int "SegmentFilter list"
  | Op_Remove int DataScope
  | Op_RemoveBy "SegmentFilter list"
  | Op_Clear

fun apply_operation :: "operation \<Rightarrow> segmentManager \<Rightarrow> segmentManager option" where
  "apply_operation (Op_Put segmentType segments) mgr =
     (case Put segmentType segments mgr of Inl p \<Rightarrow> None | Inr mgr' \<Rightarrow> Some mgr')"
| "apply_operation (Op_UpdateBy_IncreaseVersion version filters) mgr =
     (case UpdateBy (IncreaseVersion version) filters mgr of
        None \<Rightarrow> None
      | Some r \<Rightarrow> Some (snd r))"
| "apply_operation (Op_Remove segmentID scope) mgr = Some (snd (Remove segmentID scope mgr))"
| "apply_operation (Op_RemoveBy filters) mgr = Some (snd (RemoveBy filters mgr))"
| "apply_operation Op_Clear mgr = Some (Clear mgr)"

fun run :: "operation list \<Rightarrow> segmentManager \<Rightarrow> segmentManager option" where
  "run [] mgr = Some mgr"
| "run (op # ops) mgr =
     (case apply_operation op mgr of None \<Rightarrow> None | Some mgr' \<Rightarrow> run ops mgr')"

subsection \<open>Properties of registry states\<close>

text \<open>A Go map holds one entry for a key.\<close>

definition distinctKeys :: "segmentManager \<Rightarrow> bool" where
  "distinctKeys mgr \<longleftrightarrow>
     distinct (map fst (growingSegments mgr)) \<and> distinct (map fst (sealedSegments mgr))"

text \<open>Every entry is stored under the id of its segment, as \<^verbatim>\<open>Put\<close> stores it.\<close>

definition keyAgreement :: "segmentManager \<Rightarrow> bool" where
  "keyAgreement mgr \<longleftrightarrow>
     (\<forall>e\<in>set (growingSegments mgr). ID (snd e) = fst e)
   \<and> (\<forall>e\<in>set (sealedSegments mgr). ID (snd e) = fst e)"

text \<open>Type agreement: the type of a stored segment is the type of its map.\<close>

definition typeAgreement :: "segmentManager \<Rightarrow> bool" where
  "typeAgreement mgr \<longleftrightarrow>
     (\<forall>e\<in>set (growingSegments mgr). Type (snd e) = SegmentTypeGrowing)
   \<and> (\<forall>e\<in>set (sealedSegments mgr). Type (snd e) = SegmentTypeSealed)"

text \<open>Exclusivity: no id has an entry in both maps.\<close>

definition exclusive :: "segmentManager \<Rightarrow> bool" where
  "exclusive mgr \<longleftrightarrow>
     (\<forall>k. map_of (growingSegments mgr) k = None \<or> map_of (sealedSegments mgr) k = None)"

text \<open>The map that a \<^verbatim>\<open>Put\<close> of the given segment type does not write.\<close>

definition otherMap :: "SegmentType \<Rightarrow> segmentManager \<Rightarrow> (int \<times> segment) list" where
  "otherMap segmentType mgr =
     (case segmentType of
        SegmentTypeGrowing \<Rightarrow> sealedSegments mgr
      | SegmentTypeSealed \<Rightarrow> growingSegments mgr
      | _ \<Rightarrow> [])"

text \<open>
  A \<^verbatim>\<open>Put\<close> is allowed in a state when none of its segments has an entry in the other
  map; a sequence of operations has exclusive puts when every \<^verbatim>\<open>Put\<close> of it is allowed
  in the state it is applied to.
\<close>

fun putAllowed :: "operation \<Rightarrow> segmentManager \<Rightarrow> bool" where
  "putAllowed (Op_Put segmentType segments) mgr =
     (\<forall>segment\<in>set segments. map_of (otherMap segmentType mgr) (ID segment) = None)"
| "putAllowed op mgr = True"

fun exclusivePuts :: "operation list \<Rightarrow> segmentManager \<Rightarrow> bool" where
  "exclusivePuts [] mgr = True"
| "exclusivePuts (op # ops) mgr =
     (putAllowed op mgr \<and>
      (case apply_operation op mgr of None \<Rightarrow> True | Some mgr' \<Rightarrow> exclusivePuts ops mgr'))"

text \<open>
  Two orders between registry states. \<open>entriesFrom m m'\<close>: every entry of \<open>m'\<close> comes
  from an entry of \<open>m\<close> under the same key of the same map, with a version that is not
  greater. \<open>entriesKept m m'\<close>: every entry of \<open>m\<close> is still there in \<open>m'\<close>, with a
  version that is not smaller.
\<close>

definition entriesFrom :: "segmentManager \<Rightarrow> segmentManager \<Rightarrow> bool" where
  "entriesFrom m m' \<longleftrightarrow>
     (\<forall>t k new. map_of (targetMap t m') k = Some new \<longrightarrow>
        (\<exists>old. map_of (targetMap t m) k = Some old \<and> Version old \<le> Version new))"

definition entriesKept :: "segmentManager \<Rightarrow> segmentManager \<Rightarrow> bool" where
  "entriesKept m m' \<longleftrightarrow>
     (\<forall>t k old. map_of (targetMap t m) k = Some old \<longrightarrow>
        (\<exists>new. map_of (targetMap t m') k = Some new \<and> Version old \<le> Version new))"

text \<open>The relation that every step of \<^verbatim>\<open>UpdateBy\<close> keeps, on the state of its callback.\<close>

definition updateRel ::
  "segmentManager \<times> nat option \<Rightarrow> segmentManager \<times> nat option \<Rightarrow> bool" where
  "updateRel x y \<longleftrightarrow>
     entriesFrom (fst x) (fst y) \<and> entriesKept (fst x) (fst y) \<and> (snd x \<noteq> None \<longrightarrow> snd y \<noteq> None)"

subsection \<open>Filtering without hints\<close>

text \<open>
  The specification of filtered lookup: filters combine by conjunction, so the result of
  a lookup is every stored segment that all the filters accept. This definition follows
  the specification, not \<^verbatim>\<open>rangeWithFilter\<close>; it is what \<open>GetBy\<close> is compared with.
\<close>

definition naiveGetBy :: "SegmentFilter list \<Rightarrow> segmentManager \<Rightarrow> segment list" where
  "naiveGetBy filters mgr =
     filter (\<lambda>segment. \<forall>f\<in>set filters. Filter f segment)
       (map snd (sealedSegments mgr) @ map snd (growingSegments mgr))"

text \<open>
  The hints of a filter list agree when all its type hints name one type and all its id
  hints name the same ids.
\<close>

definition hintsAgree :: "SegmentFilter list \<Rightarrow> bool" where
  "hintsAgree filters \<longleftrightarrow>
     (\<forall>f\<in>set filters. \<forall>g\<in>set filters.
        (snd (SegmentType_hint f) \<and> snd (SegmentType_hint g)
           \<longrightarrow> fst (SegmentType_hint f) = fst (SegmentType_hint g))
      \<and> (snd (SegmentIDs f) \<and> snd (SegmentIDs g)
           \<longrightarrow> fst (SegmentIDs f) = fst (SegmentIDs g)))"

subsection \<open>Example segments and registry states\<close>

definition exampleSegment :: "SegmentType \<Rightarrow> int \<Rightarrow> int \<Rightarrow> SegmentLevel \<Rightarrow> segment" where
  "exampleSegment typ segmentID version level =
     \<lparr>ID = segmentID, Type = typ, Version = version, Collection = 100, Partition = 10,
      Shard = ''by-dev-dml_0'', Level = level, InsertCount = 1, RLockResult = None\<rparr>"

text \<open>A sealed segment whose \<^verbatim>\<open>RLock\<close> refuses: it is being released.\<close>

definition refusingSegment :: segment where
  "refusingSegment =
     (exampleSegment SegmentTypeSealed 1 1 SegmentLevel_L1)\<lparr>RLockResult := Some PinAcquisitionFailed\<rparr>"

text \<open>Registry states and a sequence of operations for the examples below.\<close>

definition sealedSeven :: segmentManager where
  "sealedSeven =
     NewSegmentManager\<lparr>sealedSegments := [(7, exampleSegment SegmentTypeSealed 7 5 SegmentLevel_L1)]\<rparr>"

definition sealedSevenV1 :: segmentManager where
  "sealedSevenV1 =
     NewSegmentManager\<lparr>sealedSegments := [(7, exampleSegment SegmentTypeSealed 7 1 SegmentLevel_L1)]\<rparr>"

definition nineInBoth :: segmentManager where
  "nineInBoth =
     NewSegmentManager
       \<lparr>growingSegments := [(9, exampleSegment SegmentTypeGrowing 9 1 SegmentLevel_L1)],
        sealedSegments := [(9, exampleSegment SegmentTypeSealed 9 1 SegmentLevel_L1),
                           (10, exampleSegment SegmentTypeSealed 10 1 SegmentLevel_L1)]\<rparr>"

definition elevenL0 :: segmentManager where
  "elevenL0 =
     NewSegmentManager
       \<lparr>growingSegments := [(11, exampleSegment SegmentTypeGrowing 11 1 SegmentLevel_L1)],
        sealedSegments := [(11, exampleSegment SegmentTypeSealed 11 1 SegmentLevel_L0),
                           (12, exampleSegment SegmentTypeSealed 12 1 SegmentLevel_L1)]\<rparr>"

definition twoSealed :: segmentManager where
  "twoSealed =
     NewSegmentManager
       \<lparr>sealedSegments := [(1, exampleSegment SegmentTypeSealed 1 1 SegmentLevel_L1),
                           (2, exampleSegment SegmentTypeSealed 2 1 SegmentLevel_L1)]\<rparr>"

definition reusedID :: "operation list" where
  "reusedID =
     [Op_Put SegmentTypeGrowing [exampleSegment SegmentTypeGrowing 1 1 SegmentLevel_L1],
      Op_Remove 1 DataScope_All,
      Op_Put SegmentTypeSealed [exampleSegment SegmentTypeSealed 1 1 SegmentLevel_L1]]"

definition reusedID_final :: segmentManager where
  "reusedID_final =
     NewSegmentManager
       \<lparr>sealedSegments := [(1, exampleSegment SegmentTypeSealed 1 1 SegmentLevel_L1)],
        calls := [Call_Release (exampleSegment SegmentTypeGrowing 1 1 SegmentLevel_L1)
                    ReleaseScopeAll]\<rparr>"

definition oneInBoth :: segmentManager where
  "oneInBoth =
     NewSegmentManager
       \<lparr>growingSegments := [(1, exampleSegment SegmentTypeGrowing 1 1 SegmentLevel_L1)],
        sealedSegments := [(1, exampleSegment SegmentTypeSealed 1 1 SegmentLevel_L1)]\<rparr>"

subsection \<open>Read locks in a trace\<close>

text \<open>
  The segments whose \<^verbatim>\<open>RLock\<close> was granted in a trace of calls, and the segments that
  were unlocked in it, each in the order of the calls.
\<close>

fun granted :: "call list \<Rightarrow> segment list" where
  "granted [] = []"
| "granted (Call_RLock segment # trace) =
     (if RLockResult segment = None then segment # granted trace else granted trace)"
| "granted (c # trace) = granted trace"

fun unlocked :: "call list \<Rightarrow> segment list" where
  "unlocked [] = []"
| "unlocked (Call_RUnlock segment # trace) = segment # unlocked trace"
| "unlocked (c # trace) = unlocked trace"

text \<open>
  What the loop of \<^verbatim>\<open>GetAndPin\<close> does to its state: it only appends calls of \<^verbatim>\<open>RLock\<close> to
  the trace, and appends to \<^verbatim>\<open>lockedSegments\<close> the segments whose lock was granted.
\<close>

definition loopTrace ::
  "segment list \<times> segmentManager \<Rightarrow> segment list \<times> segmentManager \<Rightarrow> bool" where
  "loopTrace st st' \<longleftrightarrow>
     (\<exists>tr. calls (snd st') = calls (snd st) @ tr
          \<and> fst st' = fst st @ granted tr
          \<and> unlocked tr = []
          \<and> growingSegments (snd st') = growingSegments (snd st)
          \<and> sealedSegments (snd st') = sealedSegments (snd st)
          \<and> goroutines (snd st') = goroutines (snd st))"

text \<open>The two properties of a registry state that every operation keeps.\<close>

definition wellFormed :: "segmentManager \<Rightarrow> bool" where
  "wellFormed mgr \<longleftrightarrow> distinctKeys mgr \<and> keyAgreement mgr"

text \<open>A registry whose second sealed segment refuses the read lock.\<close>

definition oneThenRefusing :: segmentManager where
  "oneThenRefusing =
     NewSegmentManager
       \<lparr>sealedSegments := [(2, exampleSegment SegmentTypeSealed 2 1 SegmentLevel_L1),
                           (1, refusingSegment)]\<rparr>"

section \<open>Lemmas\<close>

lemma IncreaseVersion_loop_returns:
  "IncreaseVersion_loop (Version segment) version segment =
     Some (if Version segment < version then (True, segment\<lparr>Version := version\<rparr>)
           else (False, segment))"
  by (subst IncreaseVersion_loop.simps) (simp add: CASVersion_def)

lemma IncreaseVersion_returns:
  "IncreaseVersion version segment =
     Some (if Version segment < version then (True, segment\<lparr>Version := version\<rparr>)
           else (False, segment))"
  by (simp add: IncreaseVersion_def IncreaseVersion_loop_returns)

lemma map_of_targetMap_setTargetMap:
  "t = SegmentTypeGrowing \<or> t = SegmentTypeSealed \<Longrightarrow>
   targetMap t (setTargetMap t m mgr) = m"
  by (auto simp: targetMap_def setTargetMap_def)

lemma releaseReplaced_calls:
  "calls (releaseReplaced segs mgr) = calls mgr @ map (\<lambda>s. Call_Release s ReleaseScopeAll) segs"
  unfolding releaseReplaced_def
  by (induction segs arbitrary: mgr) (simp_all add: remove_def Release_def releaseScope_def)

lemma pinHit_maps:
  "growingSegments (snd (snd (pinHit hit st))) = growingSegments (snd st)
 \<and> sealedSegments (snd (snd (pinHit hit st))) = sealedSegments (snd st)"
  by (simp add: pinHit_def RLock_def Let_def split: option.splits)

lemma GetAndPin_loop_skip_L0:
  assumes "map_of (sealedSegments (snd st)) segmentID = Some sealed"
    and "Level sealed = SegmentLevel_L0"
  shows "GetAndPin_loop (ids1 @ segmentID # ids2) filters st
       = GetAndPin_loop (ids1 @ ids2) filters st"
  using assms
proof (induction ids1 arbitrary: st)
  case Nil
  then show ?case by simp
next
  case (Cons k ids1)
  show ?case
  proof (cases "case map_of (sealedSegments (snd st)) k of
                  Some s \<Rightarrow> Level s = SegmentLevel_L0 | None \<Rightarrow> False")
    case True
    then show ?thesis using Cons by simp
  next
    case False
    let ?g = "filterHit (map_of (growingSegments (snd st)) k) filters"
    let ?s = "filterHit (map_of (sealedSegments (snd st)) k) filters"
    let ?r1 = "pinHit ?g st"
    let ?r2 = "pinHit ?s (snd ?r1)"
    have maps: "sealedSegments (snd (snd ?r2)) = sealedSegments (snd st)"
      by (simp add: pinHit_maps)
    have "GetAndPin_loop (ids1 @ segmentID # ids2) filters (snd ?r2)
        = GetAndPin_loop (ids1 @ ids2) filters (snd ?r2)"
      using Cons.prems by (intro Cons.IH) (simp_all add: maps)
    then show ?thesis using False by (simp add: Let_def)
  qed
qed

lemmas range_defs = rangeWithFilter_def noHints_def candidates_def targetMap_def WithType_def WithID_def Let_def

lemma mergedFilter_iff: "mergedFilter fs s \<longleftrightarrow> (\<forall>f\<in>set fs. Filter f s)"
  by (induction fs) auto

lemma filter_segment_iff: "filter_segment s fs \<longleftrightarrow> (\<forall>f\<in>set fs. Filter f s)"
  by (induction fs) auto

lemma collectHints_otherFilters:
  "set (hOtherFilters (collectHints fs h))
     = set (hOtherFilters h) \<union> {f. \<exists>p. f = SegmentFilterFunc p \<and> f \<in> set fs}"
proof (induction fs arbitrary: h)
  case Nil
  then show ?case by simp
next
  case (Cons f fs)
  then show ?case by (cases f) auto
qed

lemma collectHints_hasSegIDs:
  "hHasSegIDs (collectHints fs h) \<longleftrightarrow> hHasSegIDs h \<or> (\<exists>i. SegmentIDFilter i \<in> set fs)"
proof (induction fs arbitrary: h)
  case Nil
  then show ?case by simp
next
  case (Cons f fs)
  then show ?case by (cases f) auto
qed

lemma collectHints_segmentIDs:
  "set (hSegmentIDs (collectHints fs h))
     = set (hSegmentIDs h) \<union> {i. SegmentIDFilter i \<in> set fs}"
proof (induction fs arbitrary: h)
  case Nil
  then show ?case by simp
next
  case (Cons f fs)
  then show ?case by (cases f) auto
qed

lemma collectHints_hasSegType:
  "hHasSegType (collectHints fs h) \<longleftrightarrow> hHasSegType h \<or> (\<exists>t. SegmentTypeFilter t \<in> set fs)"
proof (induction fs arbitrary: h)
  case Nil
  then show ?case by simp
next
  case (Cons f fs)
  then show ?case by (cases f) auto
qed

lemma collectHints_segType_none:
  "\<forall>t. SegmentTypeFilter t \<notin> set fs \<Longrightarrow> hSegType (collectHints fs h) = hSegType h"
proof (induction fs arbitrary: h)
  case Nil
  then show ?case by simp
next
  case (Cons f fs)
  then show ?case by (cases f) auto
qed

lemma collectHints_Cons_ex: "\<exists>h'. collectHints (f # fs) h = collectHints fs h'"
  by (cases f) (simp_all, (rule exI, rule refl)+)

lemma collectHints_segType_agree:
  "SegmentTypeFilter t \<in> set fs \<Longrightarrow>
   (\<And>t'. SegmentTypeFilter t' \<in> set fs \<Longrightarrow> t' = t) \<Longrightarrow>
   hSegType (collectHints fs h) = t"
proof (induction fs arbitrary: h)
  case Nil
  then show ?case by simp
next
  case (Cons f fs)
  show ?case
  proof (cases "SegmentTypeFilter t \<in> set fs")
    case True
    obtain h' where h': "collectHints (f # fs) h = collectHints fs h'"
      using collectHints_Cons_ex by blast
    have "hSegType (collectHints fs h') = t"
    proof (rule Cons.IH [OF True])
      fix t' assume "SegmentTypeFilter t' \<in> set fs"
      then show "t' = t" using Cons.prems(2) [of t'] by simp
    qed
    then show ?thesis by (simp only: h')
  next
    case False
    with Cons.prems(1) have f: "f = SegmentTypeFilter t" by simp
    have none: "\<forall>t'. SegmentTypeFilter t' \<notin> set fs"
    proof (intro allI notI)
      fix t' assume a: "SegmentTypeFilter t' \<in> set fs"
      then have "t' = t" using Cons.prems(2) [of t'] by simp
      with a False show False by simp
    qed
    show ?thesis using f by (simp add: collectHints_segType_none [OF none])
  qed
qed

lemma rangeKeys_collect:
  "rangeKeys (\<lambda>segmentID segType segment st. (True, fst st, snd st @ [segment]))
     merged t keys (m, ret)
   = (m, ret @ filter merged (List.map_filter (map_of (targetMap t m)) keys))"
  by (induction keys arbitrary: ret) (auto simp: List.map_filter_simps split: option.splits)

lemma rangeCandidates_collect:
  "rangeCandidates (\<lambda>segmentID segType segment st. (True, fst st, snd st @ [segment]))
     merged has ids ts (m, ret)
   = (m, ret @ concat (map (\<lambda>t. filter merged (List.map_filter (map_of (targetMap t m))
                                   (if has then ids else map fst (targetMap t m)))) ts))"
  by (induction ts arbitrary: ret) (simp_all add: rangeKeys_collect)

lemma set_map_filter: "set (List.map_filter f xs) = {y. \<exists>x\<in>set xs. f x = Some y}"
  by (induction xs) (auto simp: List.map_filter_simps split: option.splits)

lemma GetBy_set:
  "set (GetBy fs mgr) =
     (\<Union>t\<in>set (candidates (hSegType (collectHints fs noHints))
                            (hHasSegType (collectHints fs noHints))).
        {s. \<exists>k\<in>set (if hHasSegIDs (collectHints fs noHints)
                      then hSegmentIDs (collectHints fs noHints)
                      else map fst (targetMap t mgr)).
              map_of (targetMap t mgr) k = Some s
            \<and> mergedFilter (hOtherFilters (collectHints fs noHints)) s})"
  by (auto simp: GetBy_def rangeWithFilter_def Let_def rangeCandidates_collect set_map_filter)

lemma hintsAgree_types:
  "hintsAgree fs \<Longrightarrow> SegmentTypeFilter t \<in> set fs \<Longrightarrow> SegmentTypeFilter t' \<in> set fs \<Longrightarrow> t' = t"
  unfolding hintsAgree_def by fastforce

lemma hintsAgree_ids:
  "hintsAgree fs \<Longrightarrow> SegmentIDFilter i \<in> set fs \<Longrightarrow> SegmentIDFilter i' \<in> set fs \<Longrightarrow> i' = i"
  unfolding hintsAgree_def by fastforce

lemma Filter_all_iff:
  "(\<forall>f\<in>set fs. Filter f s) \<longleftrightarrow>
     (\<forall>p. SegmentFilterFunc p \<in> set fs \<longrightarrow> p s)
   \<and> (\<forall>i. SegmentIDFilter i \<in> set fs \<longrightarrow> ID s = i)
   \<and> (\<forall>t. SegmentTypeFilter t \<in> set fs \<longrightarrow> Type s = t)"
proof
  assume a: "\<forall>f\<in>set fs. Filter f s"
  show "(\<forall>p. SegmentFilterFunc p \<in> set fs \<longrightarrow> p s)
      \<and> (\<forall>i. SegmentIDFilter i \<in> set fs \<longrightarrow> ID s = i)
      \<and> (\<forall>t. SegmentTypeFilter t \<in> set fs \<longrightarrow> Type s = t)"
  proof (intro conjI allI impI)
    fix p assume "SegmentFilterFunc p \<in> set fs"
    with a have "Filter (SegmentFilterFunc p) s" by blast
    then show "p s" by simp
  next
    fix i assume "SegmentIDFilter i \<in> set fs"
    with a have "Filter (SegmentIDFilter i) s" by blast
    then show "ID s = i" by simp
  next
    fix t assume "SegmentTypeFilter t \<in> set fs"
    with a have "Filter (SegmentTypeFilter t) s" by blast
    then show "Type s = t" by simp
  qed
next
  assume a: "(\<forall>p. SegmentFilterFunc p \<in> set fs \<longrightarrow> p s)
      \<and> (\<forall>i. SegmentIDFilter i \<in> set fs \<longrightarrow> ID s = i)
      \<and> (\<forall>t. SegmentTypeFilter t \<in> set fs \<longrightarrow> Type s = t)"
  show "\<forall>f\<in>set fs. Filter f s"
  proof
    fix f assume "f \<in> set fs"
    with a show "Filter f s" by (cases f) auto
  qed
qed

lemma merged_collectHints:
  "mergedFilter (hOtherFilters (collectHints fs noHints)) s
     \<longleftrightarrow> (\<forall>p. SegmentFilterFunc p \<in> set fs \<longrightarrow> p s)"
proof -
  have "set (hOtherFilters (collectHints fs noHints))
          = {f. \<exists>p. f = SegmentFilterFunc p \<and> f \<in> set fs}"
    by (simp add: collectHints_otherFilters noHints_def)
  then show ?thesis by (auto simp: mergedFilter_iff)
qed

lemma perMap_set:
  assumes "distinct (map fst al)" and "\<forall>e\<in>set al. ID (snd e) = fst e"
  shows "{s. \<exists>k\<in>set (if has then ids else map fst al). map_of al k = Some s \<and> M s}
       = {s \<in> snd ` set al. (has \<longrightarrow> ID s \<in> set ids) \<and> M s}"
    (is "?L = ?R")
proof (rule set_eqI)
  fix s
  show "s \<in> ?L \<longleftrightarrow> s \<in> ?R"
  proof
    assume "s \<in> ?L"
    then obtain k where k: "k \<in> set (if has then ids else map fst al)"
      and m: "map_of al k = Some s" and M: "M s" by blast
    from m have mem: "(k, s) \<in> set al" by (rule map_of_SomeD)
    then have "ID s = k" using assms(2) by fastforce
    moreover from mem have "s \<in> snd ` set al" by force
    ultimately show "s \<in> ?R" using k M by (auto split: if_splits)
  next
    assume "s \<in> ?R"
    then obtain k where mem: "(k, s) \<in> set al" and ids: "has \<longrightarrow> ID s \<in> set ids"
      and M: "M s" by auto
    from mem have idk: "ID s = k" using assms(2) by fastforce
    have look: "map_of al k = Some s" using mem assms(1) by simp
    have key: "k \<in> set (if has then ids else map fst al)"
    proof (cases has)
      case True
      with ids idk show ?thesis by simp
    next
      case False
      from mem have "fst (k, s) \<in> fst ` set al" by (rule imageI)
      with False show ?thesis by simp
    qed
    from key look M show "s \<in> ?L" by blast
  qed
qed

lemma candidates_subset:
  "set (candidates t has) \<subseteq> {SegmentTypeSealed, SegmentTypeGrowing}"
  by (cases t) (auto simp: candidates_def)

lemma idHint_iff:
  assumes "hintsAgree fs"
  shows "(hHasSegIDs (collectHints fs noHints) \<longrightarrow> ID s \<in> set (hSegmentIDs (collectHints fs noHints)))
     \<longleftrightarrow> (\<forall>i. SegmentIDFilter i \<in> set fs \<longrightarrow> ID s = i)"
proof -
  have has: "hHasSegIDs (collectHints fs noHints) \<longleftrightarrow> (\<exists>i. SegmentIDFilter i \<in> set fs)"
    by (simp add: collectHints_hasSegIDs noHints_def)
  have ids: "set (hSegmentIDs (collectHints fs noHints)) = {i. SegmentIDFilter i \<in> set fs}"
    by (simp add: collectHints_segmentIDs noHints_def)
  show ?thesis
    unfolding has ids using hintsAgree_ids [OF assms] by blast
qed

lemma typeHint_iff:
  assumes ta: "typeAgreement mgr" and ha: "hintsAgree fs"
  shows "(\<exists>t\<in>set (candidates (hSegType (collectHints fs noHints))
                               (hHasSegType (collectHints fs noHints))).
            s \<in> snd ` set (targetMap t mgr))
     \<longleftrightarrow> s \<in> snd ` set (sealedSegments mgr) \<union> snd ` set (growingSegments mgr)
         \<and> (\<forall>t. SegmentTypeFilter t \<in> set fs \<longrightarrow> Type s = t)"
proof (cases "\<exists>t. SegmentTypeFilter t \<in> set fs")
  case False
  then have "hSegType (collectHints fs noHints) = SegmentStateNone"
    and "\<not> hHasSegType (collectHints fs noHints)"
    by (simp_all add: collectHints_segType_none collectHints_hasSegType noHints_def)
  then have "candidates (hSegType (collectHints fs noHints))
               (hHasSegType (collectHints fs noHints)) = [SegmentTypeSealed, SegmentTypeGrowing]"
    by (simp add: candidates_def)
  with False show ?thesis by (auto simp: targetMap_def)
next
  case True
  then obtain t0 where t0: "SegmentTypeFilter t0 \<in> set fs" by blast
  have uniq: "\<And>t'. SegmentTypeFilter t' \<in> set fs \<Longrightarrow> t' = t0"
    using hintsAgree_types [OF ha t0] .
  have st: "hSegType (collectHints fs noHints) = t0"
    using t0 uniq by (rule collectHints_segType_agree)
  have has: "hHasSegType (collectHints fs noHints)"
    using t0 by (auto simp: collectHints_hasSegType)
  have all: "(\<forall>t. SegmentTypeFilter t \<in> set fs \<longrightarrow> Type s = t) \<longleftrightarrow> Type s = t0"
    using t0 uniq by blast
  have g: "Type s = SegmentTypeGrowing" if "s \<in> snd ` set (growingSegments mgr)"
    using ta that unfolding typeAgreement_def by fastforce
  have sl: "Type s = SegmentTypeSealed" if "s \<in> snd ` set (sealedSegments mgr)"
    using ta that unfolding typeAgreement_def by fastforce
  show ?thesis
  proof (cases t0)
    case SegmentStateNone
    then have c: "candidates t0 True = []" by (simp add: candidates_def)
    have "Type s \<noteq> t0" if "s \<in> snd ` set (growingSegments mgr)"
      using g [OF that] SegmentStateNone by simp
    moreover have "Type s \<noteq> t0" if "s \<in> snd ` set (sealedSegments mgr)"
      using sl [OF that] SegmentStateNone by simp
    ultimately show ?thesis unfolding st all using has c
      by simp blast
  next
    case SegmentTypeGrowing
    then have c: "candidates t0 True = [SegmentTypeGrowing]" by (simp add: candidates_def)
    have "Type s \<noteq> t0" if "s \<in> snd ` set (sealedSegments mgr)"
      using sl [OF that] SegmentTypeGrowing by simp
    moreover have "Type s = t0" if "s \<in> snd ` set (growingSegments mgr)"
      using g [OF that] SegmentTypeGrowing by simp
    ultimately show ?thesis unfolding st all using has c
      by (simp add: targetMap_def) blast
  next
    case SegmentTypeSealed
    then have c: "candidates t0 True = [SegmentTypeSealed]" by (simp add: candidates_def)
    have "Type s \<noteq> t0" if "s \<in> snd ` set (growingSegments mgr)"
      using g [OF that] SegmentTypeSealed by simp
    moreover have "Type s = t0" if "s \<in> snd ` set (sealedSegments mgr)"
      using sl [OF that] SegmentTypeSealed by simp
    ultimately show ?thesis unfolding st all using has c
      by (simp add: targetMap_def) blast
  next
    case (SegmentStateOther n)
    then have c: "candidates t0 True = []" by (simp add: candidates_def)
    have "Type s \<noteq> t0" if "s \<in> snd ` set (growingSegments mgr)"
      using g [OF that] SegmentStateOther by simp
    moreover have "Type s \<noteq> t0" if "s \<in> snd ` set (sealedSegments mgr)"
      using sl [OF that] SegmentStateOther by simp
    ultimately show ?thesis unfolding st all using has c
      by simp blast
  qed
qed

lemma entriesFrom_refl: "entriesFrom m m"
  by (simp add: entriesFrom_def)

lemma entriesFrom_trans: "entriesFrom a b \<Longrightarrow> entriesFrom b c \<Longrightarrow> entriesFrom a c"
  unfolding entriesFrom_def
proof (intro allI impI)
  fix t k new
  assume ab: "\<forall>t k new. map_of (targetMap t b) k = Some new \<longrightarrow>
             (\<exists>old. map_of (targetMap t a) k = Some old \<and> Version old \<le> Version new)"
    and bc: "\<forall>t k new. map_of (targetMap t c) k = Some new \<longrightarrow>
             (\<exists>old. map_of (targetMap t b) k = Some old \<and> Version old \<le> Version new)"
    and c: "map_of (targetMap t c) k = Some new"
  from bc c obtain mid where mid: "map_of (targetMap t b) k = Some mid"
    and le1: "Version mid \<le> Version new" by blast
  from ab mid obtain old where old: "map_of (targetMap t a) k = Some old"
    and le2: "Version old \<le> Version mid" by blast
  from le1 le2 have "Version old \<le> Version new" by simp
  with old show "\<exists>old. map_of (targetMap t a) k = Some old \<and> Version old \<le> Version new"
    by blast
qed

lemma entriesKept_refl: "entriesKept m m"
  by (simp add: entriesKept_def)

lemma entriesKept_trans: "entriesKept a b \<Longrightarrow> entriesKept b c \<Longrightarrow> entriesKept a c"
  unfolding entriesKept_def
proof (intro allI impI)
  fix t k old
  assume ab: "\<forall>t k old. map_of (targetMap t a) k = Some old \<longrightarrow>
             (\<exists>new. map_of (targetMap t b) k = Some new \<and> Version old \<le> Version new)"
    and bc: "\<forall>t k old. map_of (targetMap t b) k = Some old \<longrightarrow>
             (\<exists>new. map_of (targetMap t c) k = Some new \<and> Version old \<le> Version new)"
    and a: "map_of (targetMap t a) k = Some old"
  from ab a obtain mid where mid: "map_of (targetMap t b) k = Some mid"
    and le1: "Version old \<le> Version mid" by blast
  from bc mid obtain new where new: "map_of (targetMap t c) k = Some new"
    and le2: "Version mid \<le> Version new" by blast
  from le1 le2 have "Version old \<le> Version new" by simp
  with new show "\<exists>new. map_of (targetMap t c) k = Some new \<and> Version old \<le> Version new"
    by blast
qed

lemma targetMap_same:
  "growingSegments m' = growingSegments m \<Longrightarrow> sealedSegments m' = sealedSegments m \<Longrightarrow>
   targetMap t m' = targetMap t m"
  by (cases t) (simp_all add: targetMap_def)

lemma entriesFrom_same_maps:
  "growingSegments m' = growingSegments m \<Longrightarrow> sealedSegments m' = sealedSegments m \<Longrightarrow>
   entriesFrom m m'"
  using targetMap_same [of m' m] by (simp add: entriesFrom_def)

lemma entriesKept_same_maps:
  "growingSegments m' = growingSegments m \<Longrightarrow> sealedSegments m' = sealedSegments m \<Longrightarrow>
   entriesKept m m'"
  using targetMap_same [of m' m] by (simp add: entriesKept_def)

lemma rangeKeys_preorder:
  assumes refl: "\<And>x. R x x"
    and trans: "\<And>a b c. R a b \<Longrightarrow> R b c \<Longrightarrow> R a c"
    and step: "\<And>k t s x. map_of (targetMap t (fst x)) k = Some s \<Longrightarrow> R x (snd (process k t s x))"
  shows "R st (rangeKeys process merged t keys st)"
proof (induction keys arbitrary: st)
  case Nil
  show ?case by (simp add: refl)
next
  case (Cons k keys)
  show ?case
  proof (cases "map_of (targetMap t (fst st)) k")
    case None
    then have "rangeKeys process merged t (k # keys) st = rangeKeys process merged t keys st"
      by simp
    then show ?thesis by (simp only: Cons.IH)
  next
    case (Some s)
    show ?thesis
    proof (cases "merged s")
      case False
      with Some have "rangeKeys process merged t (k # keys) st = rangeKeys process merged t keys st"
        by simp
      then show ?thesis by (simp only: Cons.IH)
    next
      case True
      have one: "R st (snd (process k t s st))" using Some by (rule step)
      show ?thesis
      proof (cases "fst (process k t s st)")
        case False
        with Some True have "rangeKeys process merged t (k # keys) st = snd (process k t s st)"
          by (simp add: Let_def)
        then show ?thesis by (simp only: one)
      next
        case cont: True
        have two: "R (snd (process k t s st))
                (rangeKeys process merged t keys (snd (process k t s st)))"
          by (rule Cons.IH)
        from Some True cont
        have "rangeKeys process merged t (k # keys) st
                = rangeKeys process merged t keys (snd (process k t s st))"
          by (simp add: Let_def)
        then show ?thesis using trans [OF one two] by (simp only:)
      qed
    qed
  qed
qed

lemma rangeCandidates_preorder:
  assumes refl: "\<And>x. R x x"
    and trans: "\<And>a b c. R a b \<Longrightarrow> R b c \<Longrightarrow> R a c"
    and step: "\<And>k t s x. map_of (targetMap t (fst x)) k = Some s \<Longrightarrow> R x (snd (process k t s x))"
  shows "R st (rangeCandidates process merged has ids ts st)"
proof (induction ts arbitrary: st)
  case Nil
  show ?case by (simp add: refl)
next
  case (Cons t ts)
  let ?mid = "rangeKeys process merged t
                (if has then ids else map fst (targetMap t (fst st))) st"
  have one: "R st ?mid" using refl trans step by (rule rangeKeys_preorder)
  have two: "R ?mid (rangeCandidates process merged has ids ts ?mid)" by (rule Cons.IH)
  have "rangeCandidates process merged has ids (t # ts) st
          = rangeCandidates process merged has ids ts ?mid"
    by simp
  then show ?case using trans [OF one two] by (simp only:)
qed

lemma rangeWithFilter_preorder:
  assumes refl: "\<And>x. R x x"
    and trans: "\<And>a b c. R a b \<Longrightarrow> R b c \<Longrightarrow> R a c"
    and step: "\<And>k t s x. map_of (targetMap t (fst x)) k = Some s \<Longrightarrow> R x (snd (process k t s x))"
  shows "R st (rangeWithFilter process filters st)"
  unfolding rangeWithFilter_def Let_def using refl trans step by (rule rangeCandidates_preorder)

lemma rangeWithFilter_manager_preorder:
  assumes refl: "\<And>m. Q m m"
    and trans: "\<And>a b c. Q a b \<Longrightarrow> Q b c \<Longrightarrow> Q a c"
    and step: "\<And>k t s x. map_of (targetMap t (fst x)) k = Some s \<Longrightarrow>
                 Q (fst x) (fst (snd (process k t s x)))"
  shows "Q (fst st) (fst (rangeWithFilter process filters st))"
proof -
  define R where "R = (\<lambda>(x :: segmentManager \<times> 'a) (y :: segmentManager \<times> 'a). Q (fst x) (fst y))"
  have "R st (rangeWithFilter process filters st)"
  proof (rule rangeWithFilter_preorder)
    show "\<And>x. R x x" by (simp add: R_def refl)
    show "\<And>a b c. R a b \<Longrightarrow> R b c \<Longrightarrow> R a c" unfolding R_def by (rule trans)
    show "\<And>k t s x. map_of (targetMap t (fst x)) k = Some s \<Longrightarrow> R x (snd (process k t s x))"
      unfolding R_def by (rule step)
  qed
  then show ?thesis by (simp add: R_def)
qed

lemma entriesFromI:
  assumes "\<And>k new. map_of (growingSegments m') k = Some new \<Longrightarrow>
             \<exists>old. map_of (growingSegments m) k = Some old \<and> Version old \<le> Version new"
    and "\<And>k new. map_of (sealedSegments m') k = Some new \<Longrightarrow>
             \<exists>old. map_of (sealedSegments m) k = Some old \<and> Version old \<le> Version new"
  shows "entriesFrom m m'"
  unfolding entriesFrom_def
proof (intro allI impI)
  fix t k new
  assume "map_of (targetMap t m') k = Some new"
  then show "\<exists>old. map_of (targetMap t m) k = Some old \<and> Version old \<le> Version new"
    using assms by (cases t) (simp_all add: targetMap_def)
qed

lemma entriesKeptI:
  assumes "\<And>k old. map_of (growingSegments m) k = Some old \<Longrightarrow>
             \<exists>new. map_of (growingSegments m') k = Some new \<and> Version old \<le> Version new"
    and "\<And>k old. map_of (sealedSegments m) k = Some old \<Longrightarrow>
             \<exists>new. map_of (sealedSegments m') k = Some new \<and> Version old \<le> Version new"
  shows "entriesKept m m'"
  unfolding entriesKept_def
proof (intro allI impI)
  fix t k old
  assume "map_of (targetMap t m) k = Some old"
  then show "\<exists>new. map_of (targetMap t m') k = Some new \<and> Version old \<le> Version new"
    using assms by (cases t) (simp_all add: targetMap_def)
qed

lemma entriesFrom_growingD:
  "entriesFrom m m' \<Longrightarrow> map_of (growingSegments m') k = Some new \<Longrightarrow>
   \<exists>old. map_of (growingSegments m) k = Some old \<and> Version old \<le> Version new"
  unfolding entriesFrom_def
  by (drule spec [of _ SegmentTypeGrowing]) (simp add: targetMap_def)

lemma entriesFrom_sealedD:
  "entriesFrom m m' \<Longrightarrow> map_of (sealedSegments m') k = Some new \<Longrightarrow>
   \<exists>old. map_of (sealedSegments m) k = Some old \<and> Version old \<le> Version new"
  unfolding entriesFrom_def
  by (drule spec [of _ SegmentTypeSealed]) (simp add: targetMap_def)

lemma entriesKept_growingD:
  "entriesKept m m' \<Longrightarrow> map_of (growingSegments m) k = Some old \<Longrightarrow>
   \<exists>new. map_of (growingSegments m') k = Some new \<and> Version old \<le> Version new"
  unfolding entriesKept_def
  by (drule spec [of _ SegmentTypeGrowing]) (simp add: targetMap_def)

lemma entriesKept_sealedD:
  "entriesKept m m' \<Longrightarrow> map_of (sealedSegments m) k = Some old \<Longrightarrow>
   \<exists>new. map_of (sealedSegments m') k = Some new \<and> Version old \<le> Version new"
  unfolding entriesKept_def
  by (drule spec [of _ SegmentTypeSealed]) (simp add: targetMap_def)

lemma removeSegmentWithType_entriesFrom:
  "entriesFrom m (snd (removeSegmentWithType t k m))"
proof (rule entriesFromI)
  fix k' new
  assume "map_of (growingSegments (snd (removeSegmentWithType t k m))) k' = Some new"
  then have "map_of (growingSegments m) k' = Some new"
    by (cases t)
       (auto simp: removeSegmentWithType_def delete_conv' split: option.splits if_splits)
  then show "\<exists>old. map_of (growingSegments m) k' = Some old \<and> Version old \<le> Version new"
    by simp
next
  fix k' new
  assume "map_of (sealedSegments (snd (removeSegmentWithType t k m))) k' = Some new"
  then have "map_of (sealedSegments m) k' = Some new"
    by (cases t)
       (auto simp: removeSegmentWithType_def delete_conv' split: option.splits if_splits)
  then show "\<exists>old. map_of (sealedSegments m) k' = Some old \<and> Version old \<le> Version new"
    by simp
qed

lemma remove_maps:
  "growingSegments (remove s m) = growingSegments m \<and> sealedSegments (remove s m) = sealedSegments m"
  by (simp add: remove_def Release_def)

lemma fold_remove_maps:
  "growingSegments (fold remove segs m) = growingSegments m
 \<and> sealedSegments (fold remove segs m) = sealedSegments m"
  by (induction segs arbitrary: m) (simp_all add: remove_maps)

lemma removeIfNotNil_maps:
  "growingSegments (removeIfNotNil found m) = growingSegments m
 \<and> sealedSegments (removeIfNotNil found m) = sealedSegments m"
  by (cases found) (simp_all add: removeIfNotNil_def remove_maps)

lemma RemoveBy_entriesFrom: "entriesFrom m (snd (RemoveBy filters m))"
proof -
  have "entriesFrom (fst (m, [] :: segment list, 0::nat, 0::nat))
          (fst (rangeWithFilter RemoveBy_process filters (m, [], 0, 0)))"
  proof (rule rangeWithFilter_manager_preorder [where Q = entriesFrom])
    show "\<And>m. entriesFrom m m" by (rule entriesFrom_refl)
    show "\<And>a b c. entriesFrom a b \<Longrightarrow> entriesFrom b c \<Longrightarrow> entriesFrom a c"
      by (rule entriesFrom_trans)
    show "\<And>k t s x. map_of (targetMap t (fst x)) k = Some s \<Longrightarrow>
            entriesFrom (fst x) (fst (snd (RemoveBy_process k t s x)))"
    proof -
      fix k t s and x :: "segmentManager \<times> segment list \<times> nat \<times> nat"
      have "fst (snd (RemoveBy_process k t s x)) = snd (removeSegmentWithType t k (fst x))"
        by (simp add: RemoveBy_process_def Let_def split: option.splits)
      then show "entriesFrom (fst x) (fst (snd (RemoveBy_process k t s x)))"
        by (simp only: removeSegmentWithType_entriesFrom)
    qed
  qed
  then have "entriesFrom m (fst (rangeWithFilter RemoveBy_process filters (m, [], 0, 0)))"
    by simp
  moreover have "entriesFrom (fst (rangeWithFilter RemoveBy_process filters (m, [], 0, 0)))
                   (snd (RemoveBy filters m))"
    by (rule entriesFrom_same_maps) (simp_all add: RemoveBy_def Let_def fold_remove_maps)
  ultimately show ?thesis by (rule entriesFrom_trans)
qed

lemma Remove_entriesFrom: "entriesFrom m (snd (Remove k scope m))"
proof (cases scope)
  case DataScope_Streaming
  have "entriesFrom (snd (removeSegmentWithType SegmentTypeGrowing k m)) (snd (Remove k scope m))"
    by (rule entriesFrom_same_maps)
       (simp_all add: Remove_def DataScope_Streaming Let_def removeIfNotNil_maps)
  with removeSegmentWithType_entriesFrom show ?thesis by (rule entriesFrom_trans)
next
  case DataScope_Historical
  have "entriesFrom (snd (removeSegmentWithType SegmentTypeSealed k m)) (snd (Remove k scope m))"
    by (rule entriesFrom_same_maps)
       (simp_all add: Remove_def DataScope_Historical Let_def removeIfNotNil_maps)
  with removeSegmentWithType_entriesFrom show ?thesis by (rule entriesFrom_trans)
next
  case DataScope_All
  let ?g = "snd (removeSegmentWithType SegmentTypeGrowing k m)"
  let ?s = "snd (removeSegmentWithType SegmentTypeSealed k ?g)"
  have "entriesFrom m ?g" by (rule removeSegmentWithType_entriesFrom)
  moreover have "entriesFrom ?g ?s" by (rule removeSegmentWithType_entriesFrom)
  ultimately have "entriesFrom m ?s" by (rule entriesFrom_trans)
  moreover have "entriesFrom ?s (snd (Remove k scope m))"
    by (rule entriesFrom_same_maps)
       (simp_all add: Remove_def DataScope_All Let_def removeIfNotNil_maps)
  ultimately show ?thesis by (rule entriesFrom_trans)
next
  case (DataScope_Other n)
  then show ?thesis by (simp add: Remove_def entriesFrom_refl)
qed

lemma delete_growing_entriesFrom:
  "entriesFrom m (remove s (m\<lparr>growingSegments := AList.delete k (growingSegments m)\<rparr>))"
  by (rule entriesFromI)
     (auto simp: remove_def Release_def delete_conv' split: if_splits)

lemma delete_sealed_entriesFrom:
  "entriesFrom m (remove s (m\<lparr>sealedSegments := AList.delete k (sealedSegments m)\<rparr>))"
  by (rule entriesFromI)
     (auto simp: remove_def Release_def delete_conv' split: if_splits)

lemma Clear_growing_entriesFrom: "entriesFrom m (Clear_growing entries m)"
proof (induction entries arbitrary: m)
  case Nil
  show ?case by (simp add: entriesFrom_refl)
next
  case (Cons e entries)
  let ?m = "remove (snd e) (m\<lparr>growingSegments := AList.delete (fst e) (growingSegments m)\<rparr>)"
  have "entriesFrom m ?m" by (rule delete_growing_entriesFrom)
  moreover have "entriesFrom ?m (Clear_growing entries ?m)" by (rule Cons.IH)
  ultimately have "entriesFrom m (Clear_growing entries ?m)" by (rule entriesFrom_trans)
  then show ?case by simp
qed

lemma Clear_sealed_entriesFrom: "entriesFrom m (Clear_sealed entries m)"
proof (induction entries arbitrary: m)
  case Nil
  show ?case by (simp add: entriesFrom_refl)
next
  case (Cons e entries)
  let ?m = "remove (snd e) (m\<lparr>sealedSegments := AList.delete (fst e) (sealedSegments m)\<rparr>)"
  have "entriesFrom m ?m" by (rule delete_sealed_entriesFrom)
  moreover have "entriesFrom ?m (Clear_sealed entries ?m)" by (rule Cons.IH)
  ultimately have "entriesFrom m (Clear_sealed entries ?m)" by (rule entriesFrom_trans)
  then show ?case by simp
qed

lemma Clear_entriesFrom: "entriesFrom m (Clear m)"
  unfolding Clear_def Let_def
  using Clear_growing_entriesFrom Clear_sealed_entriesFrom by (rule entriesFrom_trans)

lemma targetMap_Some_type:
  "map_of (targetMap t m) k = Some s \<Longrightarrow> t = SegmentTypeGrowing \<or> t = SegmentTypeSealed"
  by (cases t) (simp_all add: targetMap_def)

lemma writeBack_entriesFrom:
  assumes "map_of (targetMap t m) k = Some s" and "Version s \<le> Version s'"
  shows "entriesFrom m (setTargetMap t (AList.update k s' (targetMap t m)) m)"
proof (rule entriesFromI)
  fix k' new
  assume "map_of (growingSegments (setTargetMap t (AList.update k s' (targetMap t m)) m)) k' = Some new"
  then show "\<exists>old. map_of (growingSegments m) k' = Some old \<and> Version old \<le> Version new"
    using assms targetMap_Some_type [OF assms(1)]
    by (auto simp: targetMap_def setTargetMap_def update_conv' split: if_splits)
next
  fix k' new
  assume "map_of (sealedSegments (setTargetMap t (AList.update k s' (targetMap t m)) m)) k' = Some new"
  then show "\<exists>old. map_of (sealedSegments m) k' = Some old \<and> Version old \<le> Version new"
    using assms targetMap_Some_type [OF assms(1)]
    by (auto simp: targetMap_def setTargetMap_def update_conv' split: if_splits)
qed

lemma writeBack_entriesKept:
  assumes "t = SegmentTypeGrowing \<or> t = SegmentTypeSealed"
    and "\<And>s. map_of (targetMap t m) k = Some s \<Longrightarrow> Version s \<le> Version s'"
  shows "entriesKept m (setTargetMap t (AList.update k s' (targetMap t m)) m)"
proof (rule entriesKeptI)
  fix k' old
  assume "map_of (growingSegments m) k' = Some old"
  then show "\<exists>new. map_of (growingSegments (setTargetMap t (AList.update k s' (targetMap t m)) m)) k'
                 = Some new \<and> Version old \<le> Version new"
    using assms by (auto simp: targetMap_def setTargetMap_def update_conv')
next
  fix k' old
  assume "map_of (sealedSegments m) k' = Some old"
  then show "\<exists>new. map_of (sealedSegments (setTargetMap t (AList.update k s' (targetMap t m)) m)) k'
                 = Some new \<and> Version old \<le> Version new"
    using assms by (auto simp: targetMap_def setTargetMap_def update_conv')
qed

lemma updateRel_refl: "updateRel x x"
  by (simp add: updateRel_def entriesFrom_refl entriesKept_refl)

lemma updateRel_trans: "updateRel a b \<Longrightarrow> updateRel b c \<Longrightarrow> updateRel a c"
  unfolding updateRel_def
  using entriesFrom_trans [of "fst a" "fst b" "fst c"] entriesKept_trans [of "fst a" "fst b" "fst c"]
  by blast

lemma UpdateBy_process_updateRel:
  assumes look: "map_of (targetMap t (fst x)) k = Some s"
  shows "updateRel x (snd (UpdateBy_process (IncreaseVersion v) k t s x))"
proof (cases "snd x")
  case None
  then show ?thesis by (simp add: UpdateBy_process_def updateRel_refl)
next
  case (Some n)
  let ?s' = "if Version s < v then s\<lparr>Version := v\<rparr> else s"
  let ?m' = "setTargetMap t (AList.update k ?s' (targetMap t (fst x))) (fst x)"
  have le: "Version s \<le> Version ?s'" by simp
  have res: "snd (UpdateBy_process (IncreaseVersion v) k t s x)
               = (?m', Some (if Version s < v then n + 1 else n))"
    using Some by (simp add: UpdateBy_process_def IncreaseVersion_returns)
  have "entriesFrom (fst x) ?m'" using look le by (rule writeBack_entriesFrom)
  moreover have "entriesKept (fst x) ?m'"
  proof (rule writeBack_entriesKept)
    show "t = SegmentTypeGrowing \<or> t = SegmentTypeSealed" using look by (rule targetMap_Some_type)
    fix s0 assume "map_of (targetMap t (fst x)) k = Some s0"
    with look have "s0 = s" by simp
    with le show "Version s0 \<le> Version ?s'" by simp
  qed
  ultimately show ?thesis unfolding res updateRel_def by simp
qed

lemma UpdateBy_IncreaseVersion:
  "\<exists>n m'. UpdateBy (IncreaseVersion v) filters m = Some (n, m')
         \<and> entriesFrom m m' \<and> entriesKept m m'"
proof -
  let ?st = "rangeWithFilter (UpdateBy_process (IncreaseVersion v)) filters (m, Some 0)"
  have "updateRel (m, Some 0) ?st"
    using updateRel_refl updateRel_trans UpdateBy_process_updateRel
    by (rule rangeWithFilter_preorder)
  then have "entriesFrom m (fst ?st)" and "entriesKept m (fst ?st)" and "snd ?st \<noteq> None"
    by (simp_all add: updateRel_def)
  then show ?thesis by (auto simp: UpdateBy_def Let_def)
qed

lemma Put_loop_entriesKept:
  assumes "t = SegmentTypeGrowing \<or> t = SegmentTypeSealed"
  shows "entriesKept (fst st) (fst (Put_loop t segs st))"
proof (induction segs arbitrary: st)
  case Nil
  show ?case by (cases st) (simp add: entriesKept_refl)
next
  case (Cons s segs)
  obtain m r where st: "st = (m, r)" by (cases st)
  let ?put = "setTargetMap t (AList.update (ID s) s (targetMap t m)) m"
  show ?case
  proof (cases "map_of (targetMap t m) (ID s)")
    case None
    have "entriesKept m ?put"
      using assms by (rule writeBack_entriesKept) (simp add: None)
    moreover have "entriesKept ?put (fst (Put_loop t segs (?put, r)))"
      using Cons.IH [of "(?put, r)"] by simp
    ultimately have "entriesKept m (fst (Put_loop t segs (?put, r)))" by (rule entriesKept_trans)
    then show ?thesis using None by (simp add: st)
  next
    case (Some old)
    show ?thesis
    proof (cases "Version old \<ge> Version s")
      case True
      have "entriesKept m (Release s [] m)"
        by (rule entriesKept_same_maps) (simp_all add: Release_def)
      moreover have "entriesKept (Release s [] m) (fst (Put_loop t segs (Release s [] m, r)))"
        using Cons.IH [of "(Release s [] m, r)"] by simp
      ultimately have "entriesKept m (fst (Put_loop t segs (Release s [] m, r)))"
        by (rule entriesKept_trans)
      then show ?thesis using Some True by (simp add: st)
    next
      case False
      have "entriesKept m ?put"
        using assms by (rule writeBack_entriesKept) (use Some False in simp)
      moreover have "entriesKept ?put (fst (Put_loop t segs (?put, r @ [old])))"
        using Cons.IH [of "(?put, r @ [old])"] by simp
      ultimately have "entriesKept m (fst (Put_loop t segs (?put, r @ [old])))"
        by (rule entriesKept_trans)
      then show ?thesis using Some False by (simp add: st)
    qed
  qed
qed

lemma otherMap_setTargetMap: "otherMap t (setTargetMap t al m) = otherMap t m"
  by (cases t) (simp_all add: otherMap_def setTargetMap_def)

lemma otherMap_Release: "otherMap t (Release s opts m) = otherMap t m"
  by (cases t) (simp_all add: otherMap_def Release_def)

lemma Put_loop_otherMap: "otherMap t (fst (Put_loop t segs st)) = otherMap t (fst st)"
proof (induction segs arbitrary: st)
  case Nil
  show ?case by (cases st) simp
next
  case (Cons s segs)
  obtain m r where st: "st = (m, r)" by (cases st)
  show ?case
    by (simp add: st Cons.IH otherMap_setTargetMap otherMap_Release split: option.splits)
qed

lemma Put_loop_keys:
  assumes "t = SegmentTypeGrowing \<or> t = SegmentTypeSealed"
    and "map_of (targetMap t (fst (Put_loop t segs st))) k = Some new"
  shows "map_of (targetMap t (fst st)) k \<noteq> None \<or> k \<in> ID ` set segs"
  using assms(2)
proof (induction segs arbitrary: st)
  case Nil
  then show ?case by (cases st) simp
next
  case (Cons s segs)
  obtain m r where st: "st = (m, r)" by (cases st)
  let ?put = "setTargetMap t (AList.update (ID s) s (targetMap t m)) m"
  have put: "map_of (targetMap t ?put) k \<noteq> None \<Longrightarrow> map_of (targetMap t m) k \<noteq> None \<or> k = ID s"
    using assms(1) by (auto simp: targetMap_def setTargetMap_def update_conv' split: if_splits)
  have rel: "targetMap t (Release s [] m) = targetMap t m"
    by (cases t) (simp_all add: targetMap_def Release_def)
  show ?case
  proof (cases "map_of (targetMap t m) (ID s)")
    case None
    with Cons.prems have "map_of (targetMap t (fst (Put_loop t segs (?put, r)))) k = Some new"
      by (simp add: st)
    from Cons.IH [OF this] put show ?thesis by (auto simp: st)
  next
    case (Some old)
    show ?thesis
    proof (cases "Version old \<ge> Version s")
      case True
      with Some Cons.prems
      have "map_of (targetMap t (fst (Put_loop t segs (Release s [] m, r)))) k = Some new"
        by (simp add: st)
      from Cons.IH [OF this] rel show ?thesis by (auto simp: st)
    next
      case False
      with Some Cons.prems
      have "map_of (targetMap t (fst (Put_loop t segs (?put, r @ [old])))) k = Some new"
        by (simp add: st)
      from Cons.IH [OF this] put show ?thesis by (auto simp: st)
    qed
  qed
qed

lemma exclusiveD:
  "exclusive m \<Longrightarrow> map_of (growingSegments m) k = None \<or> map_of (sealedSegments m) k = None"
  unfolding exclusive_def by (rule spec)

lemma Put_Inr:
  assumes "Put t segs m = Inr m'"
  shows "(t = SegmentTypeGrowing \<or> t = SegmentTypeSealed)
       \<and> growingSegments m' = growingSegments (fst (Put_loop t segs (m, [])))
       \<and> sealedSegments m' = sealedSegments (fst (Put_loop t segs (m, [])))"
  using assms by (auto simp: Put_def Let_def split: if_splits)

lemma Put_entriesKept:
  assumes "Put t segs m = Inr m'"
  shows "entriesKept m m'"
proof -
  from Put_Inr [OF assms] have t: "t = SegmentTypeGrowing \<or> t = SegmentTypeSealed"
    and g: "growingSegments m' = growingSegments (fst (Put_loop t segs (m, [])))"
    and s: "sealedSegments m' = sealedSegments (fst (Put_loop t segs (m, [])))"
    by simp_all
  have "entriesKept (fst (m, [] :: segment list)) (fst (Put_loop t segs (m, [])))"
    using t by (rule Put_loop_entriesKept)
  moreover have "entriesKept (fst (Put_loop t segs (m, []))) m'"
    using g s by (rule entriesKept_same_maps)
  ultimately show ?thesis by (simp add: entriesKept_trans)
qed

lemma apply_operation_rel:
  assumes "apply_operation op m = Some m'"
  shows "entriesFrom m m' \<or> entriesKept m m'"
proof (cases op)
  case (Op_Put t segs)
  with assms have "Put t segs m = Inr m'" by (simp split: sum.splits)
  then show ?thesis by (simp add: Put_entriesKept)
next
  case (Op_UpdateBy_IncreaseVersion v fs)
  from UpdateBy_IncreaseVersion [of v fs m] obtain n m1
    where "UpdateBy (IncreaseVersion v) fs m = Some (n, m1)" and "entriesFrom m m1" by blast
  with assms Op_UpdateBy_IncreaseVersion show ?thesis by simp
next
  case (Op_Remove k scope)
  with assms Remove_entriesFrom [of m k scope] show ?thesis by auto
next
  case (Op_RemoveBy fs)
  with assms RemoveBy_entriesFrom [of m fs] show ?thesis by auto
next
  case Op_Clear
  with assms Clear_entriesFrom [of m] show ?thesis by auto
qed

lemma apply_operation_None:
  "apply_operation op m = None \<longleftrightarrow>
     (\<exists>t segs. op = Op_Put t segs \<and> t \<noteq> SegmentTypeGrowing \<and> t \<noteq> SegmentTypeSealed)"
proof (cases op)
  case (Op_Put t segs)
  then show ?thesis by (auto simp: Put_def Let_def split: sum.splits if_splits)
next
  case (Op_UpdateBy_IncreaseVersion v fs)
  from UpdateBy_IncreaseVersion [of v fs m] obtain n m1
    where "UpdateBy (IncreaseVersion v) fs m = Some (n, m1)" by blast
  with Op_UpdateBy_IncreaseVersion show ?thesis by simp
qed simp_all

lemma entriesFrom_exclusive:
  assumes "entriesFrom m m'" and "exclusive m"
  shows "exclusive m'"
  unfolding exclusive_def
proof
  fix k
  show "map_of (growingSegments m') k = None \<or> map_of (sealedSegments m') k = None"
  proof (rule ccontr)
    assume "\<not> ?thesis"
    then obtain a b where "map_of (growingSegments m') k = Some a"
      and "map_of (sealedSegments m') k = Some b" by auto
    with entriesFrom_growingD [OF assms(1)] entriesFrom_sealedD [OF assms(1)]
    have "map_of (growingSegments m) k \<noteq> None" and "map_of (sealedSegments m) k \<noteq> None"
      by fastforce+
    with exclusiveD [OF assms(2), of k] show False by simp
  qed
qed

lemma Put_exclusive:
  assumes put: "Put t segs m = Inr m'"
    and allowed: "\<forall>s\<in>set segs. map_of (otherMap t m) (ID s) = None"
    and ex: "exclusive m"
  shows "exclusive m'"
proof -
  let ?l = "fst (Put_loop t segs (m, []))"
  from Put_Inr [OF put] have t: "t = SegmentTypeGrowing \<or> t = SegmentTypeSealed"
    and g: "growingSegments m' = growingSegments ?l"
    and s: "sealedSegments m' = sealedSegments ?l"
    by simp_all
  have other: "otherMap t ?l = otherMap t m"
    using Put_loop_otherMap [of t segs "(m, [])"] by simp
  have keys: "map_of (targetMap t m) k \<noteq> None \<or> k \<in> ID ` set segs"
    if "map_of (targetMap t ?l) k = Some new" for k new
    using Put_loop_keys [OF t that] by simp
  have both: "map_of (targetMap t ?l) k = None \<or> map_of (otherMap t ?l) k = None" for k
  proof (cases "map_of (targetMap t ?l) k")
    case None
    then show ?thesis by simp
  next
    case (Some new)
    from keys [OF Some] show ?thesis
    proof
      assume "map_of (targetMap t m) k \<noteq> None"
      with exclusiveD [OF ex, of k] t have "map_of (otherMap t m) k = None"
        by (auto simp: targetMap_def otherMap_def)
      then show ?thesis by (simp add: other)
    next
      assume "k \<in> ID ` set segs"
      with allowed have "map_of (otherMap t m) k = None" by auto
      then show ?thesis by (simp add: other)
    qed
  qed
  show ?thesis
    unfolding exclusive_def g s
  proof
    fix k
    from both [of k] t
    show "map_of (growingSegments ?l) k = None \<or> map_of (sealedSegments ?l) k = None"
      by (auto simp: targetMap_def otherMap_def)
  qed
qed

lemma apply_operation_exclusive:
  assumes "apply_operation op m = Some m'" and "putAllowed op m" and "exclusive m"
  shows "exclusive m'"
proof (cases op)
  case (Op_Put t segs)
  with assms(1) have "Put t segs m = Inr m'" by (simp split: sum.splits)
  moreover from assms(2) Op_Put have "\<forall>s\<in>set segs. map_of (otherMap t m) (ID s) = None" by simp
  ultimately show ?thesis using assms(3) by (rule Put_exclusive)
next
  case (Op_UpdateBy_IncreaseVersion v fs)
  from UpdateBy_IncreaseVersion [of v fs m] obtain n m1
    where "UpdateBy (IncreaseVersion v) fs m = Some (n, m1)" and "entriesFrom m m1" by blast
  with assms(1) Op_UpdateBy_IncreaseVersion have "entriesFrom m m'" by simp
  then show ?thesis using assms(3) by (rule entriesFrom_exclusive)
next
  case (Op_Remove k scope)
  with assms(1) Remove_entriesFrom [of m k scope] have "entriesFrom m m'" by auto
  then show ?thesis using assms(3) by (rule entriesFrom_exclusive)
next
  case (Op_RemoveBy fs)
  with assms(1) RemoveBy_entriesFrom [of m fs] have "entriesFrom m m'" by auto
  then show ?thesis using assms(3) by (rule entriesFrom_exclusive)
next
  case Op_Clear
  with assms(1) Clear_entriesFrom [of m] have "entriesFrom m m'" by auto
  then show ?thesis using assms(3) by (rule entriesFrom_exclusive)
qed

lemma run_exclusive:
  "run ops m = Some m' \<Longrightarrow> exclusivePuts ops m \<Longrightarrow> exclusive m \<Longrightarrow> exclusive m'"
proof (induction ops arbitrary: m)
  case Nil
  then show ?case by simp
next
  case (Cons op ops)
  from Cons.prems(1) obtain m1 where m1: "apply_operation op m = Some m1"
    and rest: "run ops m1 = Some m'" by (auto split: option.splits)
  from Cons.prems(2) m1 have allowed: "putAllowed op m" and guard: "exclusivePuts ops m1"
    by simp_all
  from m1 allowed Cons.prems(3) have "exclusive m1" by (rule apply_operation_exclusive)
  with rest guard show ?case by (rule Cons.IH)
qed

lemmas example_defs = exampleSegment_def NewSegmentManager_def

lemmas eval_defs =
  Put_def Remove_def RemoveBy_def UpdateBy_def UpdateBy_process_def RemoveBy_process_def
  removeSegmentWithType_def removeIfNotNil_def countIfNotNil_def remove_def Release_def
  releaseScope_def setTargetMap_def otherMap_def range_defs example_defs

lemma granted_append: "granted (xs @ ys) = granted xs @ granted ys"
  by (induction xs rule: granted.induct) simp_all

lemma unlocked_append: "unlocked (xs @ ys) = unlocked xs @ unlocked ys"
  by (induction xs rule: unlocked.induct) simp_all

lemma granted_RUnlocks: "granted (map Call_RUnlock segs) = []"
  by (induction segs) simp_all

lemma unlocked_RUnlocks: "unlocked (map Call_RUnlock segs) = segs"
  by (induction segs) simp_all

lemma fold_RUnlock:
  "fold RUnlock segs m = m\<lparr>calls := calls m @ map Call_RUnlock segs\<rparr>"
  by (induction segs arbitrary: m) (simp_all add: RUnlock_def)

lemma pinHit_trace:
  "\<exists>tr. calls (snd (snd (pinHit hit st))) = calls (snd st) @ tr
       \<and> fst (snd (pinHit hit st)) = fst st @ granted tr
       \<and> unlocked tr = []
       \<and> growingSegments (snd (snd (pinHit hit st))) = growingSegments (snd st)
       \<and> sealedSegments (snd (snd (pinHit hit st))) = sealedSegments (snd st)
       \<and> goroutines (snd (snd (pinHit hit st))) = goroutines (snd st)"
proof (cases hit)
  case None
  then show ?thesis by (simp add: pinHit_def)
next
  case (Some s)
  show ?thesis
  proof (cases "RLockResult s")
    case None
    with Some show ?thesis
      by (intro exI [of _ "[Call_RLock s]"]) (simp add: pinHit_def RLock_def Let_def)
  next
    case (Some e)
    with \<open>hit = Some s\<close> show ?thesis
      by (intro exI [of _ "[Call_RLock s]"]) (simp add: pinHit_def RLock_def Let_def)
  qed
qed

lemma loopTrace_refl: "loopTrace st st"
  unfolding loopTrace_def by (intro exI [of _ "[]"]) simp

lemma loopTrace_trans:
  assumes "loopTrace a b" and "loopTrace b c"
  shows "loopTrace a c"
proof -
  from assms(1) obtain t1 where 1: "calls (snd b) = calls (snd a) @ t1"
    "fst b = fst a @ granted t1" "unlocked t1 = []"
    "growingSegments (snd b) = growingSegments (snd a)"
    "sealedSegments (snd b) = sealedSegments (snd a)"
    "goroutines (snd b) = goroutines (snd a)"
    unfolding loopTrace_def by blast
  from assms(2) obtain t2 where 2: "calls (snd c) = calls (snd b) @ t2"
    "fst c = fst b @ granted t2" "unlocked t2 = []"
    "growingSegments (snd c) = growingSegments (snd b)"
    "sealedSegments (snd c) = sealedSegments (snd b)"
    "goroutines (snd c) = goroutines (snd b)"
    unfolding loopTrace_def by blast
  show ?thesis
    unfolding loopTrace_def
    by (intro exI [of _ "t1 @ t2"]) (simp add: 1 2 granted_append unlocked_append)
qed

lemma pinHit_loopTrace: "loopTrace st (snd (pinHit hit st))"
  unfolding loopTrace_def using pinHit_trace [of hit st] .

lemma GetAndPin_loop_loopTrace: "loopTrace st (snd (GetAndPin_loop ids filters st))"
proof (induction ids arbitrary: st)
  case Nil
  show ?case by (simp add: loopTrace_refl)
next
  case (Cons k ids)
  show ?case
  proof (cases "case map_of (sealedSegments (snd st)) k of
                  Some s \<Rightarrow> Level s = SegmentLevel_L0 | None \<Rightarrow> False")
    case True
    then show ?thesis using Cons.IH [of st] by simp
  next
    case False
    let ?g = "filterHit (map_of (growingSegments (snd st)) k) filters"
    let ?s = "filterHit (map_of (sealedSegments (snd st)) k) filters"
    let ?r1 = "pinHit ?g st"
    let ?r2 = "pinHit ?s (snd ?r1)"
    have a: "loopTrace st (snd ?r1)" by (rule pinHit_loopTrace)
    have b: "loopTrace (snd ?r1) (snd ?r2)" by (rule pinHit_loopTrace)
    have ab: "loopTrace st (snd ?r2)" using a b by (rule loopTrace_trans)
    have c: "loopTrace st (snd (GetAndPin_loop ids filters (snd ?r2)))"
      using ab Cons.IH [of "snd ?r2"] by (rule loopTrace_trans)
    have res: "snd (GetAndPin_loop (k # ids) filters st) = snd ?r1
             \<or> snd (GetAndPin_loop (k # ids) filters st) = snd ?r2
             \<or> snd (GetAndPin_loop (k # ids) filters st)
                 = snd (GetAndPin_loop ids filters (snd ?r2))"
    proof (cases "fst ?r1 \<noteq> None")
      case True
      with False show ?thesis by (simp add: Let_def)
    next
      case r1: False
      show ?thesis
      proof (cases "fst ?r2 \<noteq> None")
        case True
        with False r1 show ?thesis by (simp add: Let_def)
      next
        case r2: False
        show ?thesis
        proof (cases "?g = None \<and> ?s = None")
          case True
          with False r1 r2 show ?thesis by (simp add: Let_def)
        next
          case found: False
          with False r1 r2 show ?thesis by (simp add: Let_def)
        qed
      qed
    qed
    from res a ab c show ?thesis by (elim disjE) (simp_all only:)
  qed
qed

lemma Clear_growing_result:
  "set (growingSegments (Clear_growing entries m))
     = {e \<in> set (growingSegments m). fst e \<notin> fst ` set entries}
 \<and> sealedSegments (Clear_growing entries m) = sealedSegments m
 \<and> goroutines (Clear_growing entries m) = goroutines m
 \<and> calls (Clear_growing entries m)
     = calls m @ map (\<lambda>e. Call_Release (snd e) ReleaseScopeAll) entries"
proof (induction entries arbitrary: m)
  case Nil
  show ?case by simp
next
  case (Cons e entries)
  let ?m = "remove (snd e) (m\<lparr>growingSegments := AList.delete (fst e) (growingSegments m)\<rparr>)"
  have m: "growingSegments ?m = AList.delete (fst e) (growingSegments m)"
    "sealedSegments ?m = sealedSegments m" "goroutines ?m = goroutines m"
    "calls ?m = calls m @ [Call_Release (snd e) ReleaseScopeAll]"
    by (simp_all add: remove_def Release_def releaseScope_def)
  have "set (AList.delete (fst e) (growingSegments m))
          = {x \<in> set (growingSegments m). fst x \<noteq> fst e}"
    by (auto simp: AList.delete_eq)
  with Cons.IH [of ?m] show ?case by (auto simp: m)
qed

lemma Clear_sealed_result:
  "set (sealedSegments (Clear_sealed entries m))
     = {e \<in> set (sealedSegments m). fst e \<notin> fst ` set entries}
 \<and> growingSegments (Clear_sealed entries m) = growingSegments m
 \<and> goroutines (Clear_sealed entries m) = goroutines m
 \<and> calls (Clear_sealed entries m)
     = calls m @ map (\<lambda>e. Call_Release (snd e) ReleaseScopeAll) entries"
proof (induction entries arbitrary: m)
  case Nil
  show ?case by simp
next
  case (Cons e entries)
  let ?m = "remove (snd e) (m\<lparr>sealedSegments := AList.delete (fst e) (sealedSegments m)\<rparr>)"
  have m: "sealedSegments ?m = AList.delete (fst e) (sealedSegments m)"
    "growingSegments ?m = growingSegments m" "goroutines ?m = goroutines m"
    "calls ?m = calls m @ [Call_Release (snd e) ReleaseScopeAll]"
    by (simp_all add: remove_def Release_def releaseScope_def)
  have "set (AList.delete (fst e) (sealedSegments m))
          = {x \<in> set (sealedSegments m). fst x \<noteq> fst e}"
    by (auto simp: AList.delete_eq)
  with Cons.IH [of ?m] show ?case by (auto simp: m)
qed

lemma set_update_subset: "e \<in> set (AList.update k v al) \<Longrightarrow> e \<in> set al \<or> e = (k, v)"
  by (induction al) (auto split: if_splits)

lemma set_delete_subset: "e \<in> set (AList.delete k al) \<Longrightarrow> e \<in> set al"
  by (simp add: AList.delete_eq)

lemma wellFormed_same_maps:
  "growingSegments m' = growingSegments m \<Longrightarrow> sealedSegments m' = sealedSegments m \<Longrightarrow>
   wellFormed m \<Longrightarrow> wellFormed m'"
  by (simp add: wellFormed_def distinctKeys_def keyAgreement_def)

lemma wellFormed_store:
  assumes "wellFormed m" and "ID s = k"
  shows "wellFormed (setTargetMap t (AList.update k s (targetMap t m)) m)"
proof (cases t)
  case SegmentTypeGrowing
  with assms show ?thesis
    by (auto simp: wellFormed_def distinctKeys_def keyAgreement_def setTargetMap_def targetMap_def
          distinct_update dest!: set_update_subset)
next
  case SegmentTypeSealed
  with assms show ?thesis
    by (auto simp: wellFormed_def distinctKeys_def keyAgreement_def setTargetMap_def targetMap_def
          distinct_update dest!: set_update_subset)
qed (use assms in \<open>simp_all add: setTargetMap_def\<close>)

lemma wellFormed_removeSegmentWithType:
  assumes "wellFormed m"
  shows "wellFormed (snd (removeSegmentWithType t k m))"
proof (cases t)
  case SegmentTypeGrowing
  with assms show ?thesis
    by (auto simp: wellFormed_def distinctKeys_def keyAgreement_def removeSegmentWithType_def
          distinct_delete split: option.splits dest!: set_delete_subset)
next
  case SegmentTypeSealed
  with assms show ?thesis
    by (auto simp: wellFormed_def distinctKeys_def keyAgreement_def removeSegmentWithType_def
          distinct_delete split: option.splits dest!: set_delete_subset)
qed (use assms in \<open>simp_all add: removeSegmentWithType_def\<close>)

lemma wellFormed_Put_loop:
  "wellFormed (fst st) \<Longrightarrow> wellFormed (fst (Put_loop t segs st))"
proof (induction segs arbitrary: st)
  case Nil
  then show ?case by (cases st) simp
next
  case (Cons s segs)
  obtain m r where st: "st = (m, r)" by (cases st)
  with Cons.prems have wf: "wellFormed m" by simp
  let ?put = "setTargetMap t (AList.update (ID s) s (targetMap t m)) m"
  have put: "wellFormed ?put" using wf by (rule wellFormed_store) simp
  have rel: "wellFormed (Release s [] m)"
    using _ _ wf by (rule wellFormed_same_maps) (simp_all add: Release_def)
  show ?case
  proof (cases "map_of (targetMap t m) (ID s)")
    case None
    then show ?thesis using Cons.IH [of "(?put, r)"] put by (simp add: st)
  next
    case (Some old)
    show ?thesis
    proof (cases "Version old \<ge> Version s")
      case True
      with Some show ?thesis using Cons.IH [of "(Release s [] m, r)"] rel by (simp add: st)
    next
      case False
      with Some show ?thesis using Cons.IH [of "(?put, r @ [old])"] put by (simp add: st)
    qed
  qed
qed

lemma wellFormed_Put:
  assumes "Put t segs m = Inr m'" and "wellFormed m"
  shows "wellFormed m'"
proof -
  from Put_Inr [OF assms(1)]
  have g: "growingSegments m' = growingSegments (fst (Put_loop t segs (m, [])))"
    and s: "sealedSegments m' = sealedSegments (fst (Put_loop t segs (m, [])))"
    by simp_all
  have "wellFormed (fst (Put_loop t segs (m, [])))"
    using assms(2) by (intro wellFormed_Put_loop) simp
  with g s show ?thesis by (rule wellFormed_same_maps)
qed

lemma wellFormed_RemoveBy:
  assumes "wellFormed m"
  shows "wellFormed (snd (RemoveBy filters m))"
proof -
  let ?Q = "\<lambda>a b. wellFormed a \<longrightarrow> wellFormed b"
  have "?Q (fst (m, [] :: segment list, 0::nat, 0::nat))
          (fst (rangeWithFilter RemoveBy_process filters (m, [], 0, 0)))"
  proof (rule rangeWithFilter_manager_preorder [where Q = ?Q])
    show "\<And>m. ?Q m m" by simp
    show "\<And>a b c. ?Q a b \<Longrightarrow> ?Q b c \<Longrightarrow> ?Q a c" by simp
    show "\<And>k t s x. map_of (targetMap t (fst x)) k = Some s \<Longrightarrow>
            ?Q (fst x) (fst (snd (RemoveBy_process k t s x)))"
    proof -
      fix k t s and x :: "segmentManager \<times> segment list \<times> nat \<times> nat"
      have "fst (snd (RemoveBy_process k t s x)) = snd (removeSegmentWithType t k (fst x))"
        by (simp add: RemoveBy_process_def Let_def split: option.splits)
      then show "?Q (fst x) (fst (snd (RemoveBy_process k t s x)))"
        by (simp add: wellFormed_removeSegmentWithType)
    qed
  qed
  with assms have "wellFormed (fst (rangeWithFilter RemoveBy_process filters (m, [], 0, 0)))"
    by simp
  then show ?thesis
    by (rule wellFormed_same_maps [rotated 2]) (simp_all add: RemoveBy_def Let_def fold_remove_maps)
qed

lemma wellFormed_Remove:
  assumes "wellFormed m"
  shows "wellFormed (snd (Remove k scope m))"
proof (cases scope)
  case DataScope_Streaming
  have "wellFormed (snd (removeSegmentWithType SegmentTypeGrowing k m))"
    using assms by (rule wellFormed_removeSegmentWithType)
  then show ?thesis
    by (rule wellFormed_same_maps [rotated 2])
       (simp_all add: Remove_def DataScope_Streaming Let_def removeIfNotNil_maps)
next
  case DataScope_Historical
  have "wellFormed (snd (removeSegmentWithType SegmentTypeSealed k m))"
    using assms by (rule wellFormed_removeSegmentWithType)
  then show ?thesis
    by (rule wellFormed_same_maps [rotated 2])
       (simp_all add: Remove_def DataScope_Historical Let_def removeIfNotNil_maps)
next
  case DataScope_All
  let ?g = "snd (removeSegmentWithType SegmentTypeGrowing k m)"
  have "wellFormed ?g" using assms by (rule wellFormed_removeSegmentWithType)
  then have "wellFormed (snd (removeSegmentWithType SegmentTypeSealed k ?g))"
    by (rule wellFormed_removeSegmentWithType)
  then show ?thesis
    by (rule wellFormed_same_maps [rotated 2])
       (simp_all add: Remove_def DataScope_All Let_def removeIfNotNil_maps)
next
  case (DataScope_Other n)
  with assms show ?thesis by (simp add: Remove_def)
qed

lemma Clear_maps: "growingSegments (Clear mgr) = [] \<and> sealedSegments (Clear mgr) = []"
proof -
  let ?g = "Clear_growing (growingSegments mgr) mgr"
  have g: "set (growingSegments ?g) = {}"
    using Clear_growing_result [of "growingSegments mgr" mgr] by auto
  let ?s = "Clear_sealed (sealedSegments ?g) ?g"
  have s: "set (sealedSegments ?s) = {}" "growingSegments ?s = growingSegments ?g"
    using Clear_sealed_result [of "sealedSegments ?g" ?g] by auto
  from g s show ?thesis by (simp add: Clear_def Let_def)
qed

lemma wellFormed_Clear: "wellFormed (Clear m)"
  by (simp add: wellFormed_def distinctKeys_def keyAgreement_def Clear_maps)

lemma wellFormed_UpdateBy_process:
  assumes look: "map_of (targetMap t (fst x)) k = Some s" and wf: "wellFormed (fst x)"
  shows "wellFormed (fst (snd (UpdateBy_process (IncreaseVersion v) k t s x)))"
proof (cases "snd x")
  case None
  with wf show ?thesis by (simp add: UpdateBy_process_def)
next
  case (Some n)
  let ?s' = "if Version s < v then s\<lparr>Version := v\<rparr> else s"
  from look have mem: "(k, s) \<in> set (targetMap t (fst x))" by (rule map_of_SomeD)
  from targetMap_Some_type [OF look] mem wf have "ID s = k"
    by (fastforce simp: wellFormed_def keyAgreement_def targetMap_def)
  then have "ID ?s' = k" by simp
  with wf have "wellFormed (setTargetMap t (AList.update k ?s' (targetMap t (fst x))) (fst x))"
    by (rule wellFormed_store)
  then show ?thesis using Some
    by (cases "Version s < v") (simp_all add: UpdateBy_process_def IncreaseVersion_returns)
qed

lemma wellFormed_UpdateBy:
  assumes "UpdateBy (IncreaseVersion v) filters m = Some r" and "wellFormed m"
  shows "wellFormed (snd r)"
proof -
  let ?Q = "\<lambda>a b. wellFormed a \<longrightarrow> wellFormed b"
  have "?Q (fst (m, Some (0::nat)))
          (fst (rangeWithFilter (UpdateBy_process (IncreaseVersion v)) filters (m, Some 0)))"
  proof (rule rangeWithFilter_manager_preorder [where Q = ?Q])
    show "\<And>m. ?Q m m" by simp
    show "\<And>a b c. ?Q a b \<Longrightarrow> ?Q b c \<Longrightarrow> ?Q a c" by simp
    show "\<And>k t s x. map_of (targetMap t (fst x)) k = Some s \<Longrightarrow>
            ?Q (fst x) (fst (snd (UpdateBy_process (IncreaseVersion v) k t s x)))"
      by (simp add: wellFormed_UpdateBy_process)
  qed
  with assms(2)
  have "wellFormed (fst (rangeWithFilter (UpdateBy_process (IncreaseVersion v)) filters (m, Some 0)))"
    by simp
  with assms(1) show ?thesis
    by (auto simp: UpdateBy_def Let_def split: option.splits)
qed

lemma wellFormed_apply_operation:
  assumes "apply_operation op m = Some m'" and "wellFormed m"
  shows "wellFormed m'"
proof (cases op)
  case (Op_Put t segs)
  with assms(1) have "Put t segs m = Inr m'" by (simp split: sum.splits)
  then show ?thesis using assms(2) by (rule wellFormed_Put)
next
  case (Op_UpdateBy_IncreaseVersion v fs)
  with assms(1) obtain r where "UpdateBy (IncreaseVersion v) fs m = Some r" and "m' = snd r"
    by (auto split: option.splits)
  with wellFormed_UpdateBy [of v fs m r] assms(2) show ?thesis by simp
next
  case (Op_Remove k scope)
  with assms wellFormed_Remove [of m k scope] show ?thesis by auto
next
  case (Op_RemoveBy fs)
  with assms wellFormed_RemoveBy [of m fs] show ?thesis by auto
next
  case Op_Clear
  with assms wellFormed_Clear [of m] show ?thesis by auto
qed

lemma wellFormed_run:
  "run ops m = Some m' \<Longrightarrow> wellFormed m \<Longrightarrow> wellFormed m'"
proof (induction ops arbitrary: m)
  case Nil
  then show ?case by simp
next
  case (Cons op ops)
  from Cons.prems(1) obtain m1 where m1: "apply_operation op m = Some m1"
    and rest: "run ops m1 = Some m'" by (auto split: option.splits)
  from m1 Cons.prems(2) have "wellFormed m1" by (rule wellFormed_apply_operation)
  with rest show ?case by (rule Cons.IH)
qed

section \<open>The claims\<close>

subsection \<open>C1: Put over a stored segment\<close>

text \<open>
  C1. For a call \<^verbatim>\<open>Put(type, s)\<close> with a growing or sealed type, when the target map
  already stores a segment \<open>old\<close> under the id of \<open>s\<close>: the call returns (no panic); if
  the version of \<open>old\<close> is at least that of \<open>s\<close>, then \<open>s\<close> is released with scope All,
  the target map is unchanged and no goroutine is spawned; otherwise \<open>s\<close> replaces \<open>old\<close>
  under that id, every other key of the target map keeps its entry, and \<open>old\<close> is
  scheduled for release: one goroutine is spawned, its work list is \<open>[old]\<close>, and its body
  run on that list makes one call, the release of \<open>old\<close> with scope All, and changes
  nothing else. In both cases the map of the other segment type is unchanged.
\<close>

theorem Put_existing:
  assumes "segmentType = SegmentTypeGrowing \<or> segmentType = SegmentTypeSealed"
    and "map_of (targetMap segmentType mgr) (ID s) = Some old"
  shows "\<exists>mgr'. Put segmentType [s] mgr = Inr mgr'
       \<and> (if Version old \<ge> Version s then
            calls mgr' = calls mgr @ [Call_Release s ReleaseScopeAll]
          \<and> targetMap segmentType mgr' = targetMap segmentType mgr
          \<and> goroutines mgr' = goroutines mgr
          else
            map_of (targetMap segmentType mgr') = (map_of (targetMap segmentType mgr))(ID s \<mapsto> s)
          \<and> goroutines mgr' = goroutines mgr @ [[old]]
          \<and> calls mgr' = calls mgr
          \<and> releaseReplaced (last (goroutines mgr')) mgr'
              = mgr'\<lparr>calls := calls mgr @ [Call_Release old ReleaseScopeAll]\<rparr>)
       \<and> (segmentType = SegmentTypeGrowing \<longrightarrow> sealedSegments mgr' = sealedSegments mgr)
       \<and> (segmentType = SegmentTypeSealed \<longrightarrow> growingSegments mgr' = growingSegments mgr)"
  using assms
  by (auto simp: Put_def Let_def Release_def releaseScope_def targetMap_def setTargetMap_def
        update_conv' releaseReplaced_def remove_def)

text \<open>
  The two cases at a registry that stores version 5 under id 7: an incoming version 3 is
  released and the entry stays; an incoming version 6 replaces it, and the goroutine
  releases version 5.
\<close>

theorem Put_existing_witness:
  "map_of (targetMap SegmentTypeSealed sealedSeven)
       (ID (exampleSegment SegmentTypeSealed 7 3 SegmentLevel_L1))
     = Some (exampleSegment SegmentTypeSealed 7 5 SegmentLevel_L1)
 \<and> (\<exists>mgr'. Put SegmentTypeSealed [exampleSegment SegmentTypeSealed 7 3 SegmentLevel_L1] sealedSeven
               = Inr mgr'
           \<and> calls mgr' = [Call_Release (exampleSegment SegmentTypeSealed 7 3 SegmentLevel_L1)
                              ReleaseScopeAll]
           \<and> sealedSegments mgr' = sealedSegments sealedSeven
           \<and> goroutines mgr' = []
           \<and> growingSegments mgr' = [])
 \<and> map_of (targetMap SegmentTypeSealed sealedSeven)
       (ID (exampleSegment SegmentTypeSealed 7 6 SegmentLevel_L1))
     = Some (exampleSegment SegmentTypeSealed 7 5 SegmentLevel_L1)
 \<and> (\<exists>mgr'. Put SegmentTypeSealed [exampleSegment SegmentTypeSealed 7 6 SegmentLevel_L1] sealedSeven
               = Inr mgr'
           \<and> map_of (sealedSegments mgr') 7
               = Some (exampleSegment SegmentTypeSealed 7 6 SegmentLevel_L1)
           \<and> goroutines mgr' = [[exampleSegment SegmentTypeSealed 7 5 SegmentLevel_L1]]
           \<and> calls mgr' = []
           \<and> calls (releaseReplaced (last (goroutines mgr')) mgr')
               = [Call_Release (exampleSegment SegmentTypeSealed 7 5 SegmentLevel_L1)
                    ReleaseScopeAll]
           \<and> growingSegments mgr' = [])"
proof -
  have t: "SegmentTypeSealed = SegmentTypeGrowing \<or> SegmentTypeSealed = SegmentTypeSealed"
    by simp
  have low: "map_of (targetMap SegmentTypeSealed sealedSeven)
               (ID (exampleSegment SegmentTypeSealed 7 3 SegmentLevel_L1))
             = Some (exampleSegment SegmentTypeSealed 7 5 SegmentLevel_L1)"
    by (simp add: targetMap_def sealedSeven_def example_defs)
  have high: "map_of (targetMap SegmentTypeSealed sealedSeven)
               (ID (exampleSegment SegmentTypeSealed 7 6 SegmentLevel_L1))
             = Some (exampleSegment SegmentTypeSealed 7 5 SegmentLevel_L1)"
    by (simp add: targetMap_def sealedSeven_def example_defs)
  from Put_existing [OF t low] obtain m1 where
    p1: "Put SegmentTypeSealed [exampleSegment SegmentTypeSealed 7 3 SegmentLevel_L1] sealedSeven
           = Inr m1"
    and c1: "calls m1 = calls sealedSeven
               @ [Call_Release (exampleSegment SegmentTypeSealed 7 3 SegmentLevel_L1) ReleaseScopeAll]"
    and s1: "targetMap SegmentTypeSealed m1 = targetMap SegmentTypeSealed sealedSeven"
    and r1: "goroutines m1 = goroutines sealedSeven"
    and g1: "growingSegments m1 = growingSegments sealedSeven"
    by (auto simp: example_defs)
  have rejected: "\<exists>mgr'. Put SegmentTypeSealed [exampleSegment SegmentTypeSealed 7 3 SegmentLevel_L1] sealedSeven
               = Inr mgr'
           \<and> calls mgr' = [Call_Release (exampleSegment SegmentTypeSealed 7 3 SegmentLevel_L1)
                              ReleaseScopeAll]
           \<and> sealedSegments mgr' = sealedSegments sealedSeven
           \<and> goroutines mgr' = []
           \<and> growingSegments mgr' = []"
    using p1 c1 s1 r1 g1 by (simp add: targetMap_def sealedSeven_def NewSegmentManager_def)
  from Put_existing [OF t high] obtain m2 where
    p2: "Put SegmentTypeSealed [exampleSegment SegmentTypeSealed 7 6 SegmentLevel_L1] sealedSeven
           = Inr m2"
    and s2: "map_of (targetMap SegmentTypeSealed m2)
               = (map_of (targetMap SegmentTypeSealed sealedSeven))
                   (ID (exampleSegment SegmentTypeSealed 7 6 SegmentLevel_L1)
                      \<mapsto> exampleSegment SegmentTypeSealed 7 6 SegmentLevel_L1)"
    and r2: "goroutines m2 = goroutines sealedSeven
               @ [[exampleSegment SegmentTypeSealed 7 5 SegmentLevel_L1]]"
    and c2: "calls m2 = calls sealedSeven"
    and b2: "releaseReplaced (last (goroutines m2)) m2
               = m2\<lparr>calls := calls sealedSeven
                             @ [Call_Release (exampleSegment SegmentTypeSealed 7 5 SegmentLevel_L1)
                                  ReleaseScopeAll]\<rparr>"
    and g2: "growingSegments m2 = growingSegments sealedSeven"
    by (auto simp: example_defs)
  have replaced: "\<exists>mgr'. Put SegmentTypeSealed [exampleSegment SegmentTypeSealed 7 6 SegmentLevel_L1] sealedSeven
               = Inr mgr'
           \<and> map_of (sealedSegments mgr') 7
               = Some (exampleSegment SegmentTypeSealed 7 6 SegmentLevel_L1)
           \<and> goroutines mgr' = [[exampleSegment SegmentTypeSealed 7 5 SegmentLevel_L1]]
           \<and> calls mgr' = []
           \<and> calls (releaseReplaced (last (goroutines mgr')) mgr')
               = [Call_Release (exampleSegment SegmentTypeSealed 7 5 SegmentLevel_L1)
                    ReleaseScopeAll]
           \<and> growingSegments mgr' = []"
    using p2 s2 r2 c2 b2 g2
    by (simp add: targetMap_def sealedSeven_def NewSegmentManager_def exampleSegment_def)
  from low rejected high replaced show ?thesis by (intro conjI)
qed

subsection \<open>C2: GetAndPinBy on a refused read lock\<close>

text \<open>
  C2 says that \<^verbatim>\<open>GetAndPinBy\<close> returns the error of a refused \<^verbatim>\<open>RLock\<close>. The code does
  not: its last statement is \<^verbatim>\<open>return ret, nil\<close>. With one sealed segment whose
  \<^verbatim>\<open>RLock\<close> refuses, \<^verbatim>\<open>GetAndPinBy()\<close> calls \<^verbatim>\<open>RLock\<close> on it, is refused, and returns the
  empty list with no error.
\<close>

theorem GetAndPinBy_drops_error:
  "Put SegmentTypeSealed [refusingSegment] NewSegmentManager
     = Inr (NewSegmentManager\<lparr>sealedSegments := [(1, refusingSegment)]\<rparr>)
 \<and> RLockResult refusingSegment = Some PinAcquisitionFailed
 \<and> GetAndPinBy [] (NewSegmentManager\<lparr>sealedSegments := [(1, refusingSegment)]\<rparr>)
     = (([], None),
        NewSegmentManager\<lparr>sealedSegments := [(1, refusingSegment)],
                           calls := [Call_RLock refusingSegment]\<rparr>)"
  by (simp add: Put_def NewSegmentManager_def setTargetMap_def GetAndPinBy_def
      GetAndPinBy_process_def RLock_def refusingSegment_def exampleSegment_def range_defs)

subsection \<open>C3: an L0 sealed segment is not pinned\<close>

text \<open>
  C3 as stated fails: after \<^verbatim>\<open>Put(Sealed, s)\<close> with id 11 and level L0 into the empty
  registry, \<^verbatim>\<open>GetAndPin([11])\<close> does not return the error SegmentNotLoaded; it returns the
  empty list and no error.
\<close>

theorem GetAndPin_L0_counterexample:
  "Put SegmentTypeSealed [exampleSegment SegmentTypeSealed 11 1 SegmentLevel_L0] NewSegmentManager
     = Inr (NewSegmentManager
              \<lparr>sealedSegments := [(11, exampleSegment SegmentTypeSealed 11 1 SegmentLevel_L0)]\<rparr>)
 \<and> fst (GetAndPin [11] []
       (NewSegmentManager
          \<lparr>sealedSegments := [(11, exampleSegment SegmentTypeSealed 11 1 SegmentLevel_L0)]\<rparr>))
     = ([], None)"
  by (simp add: Put_def NewSegmentManager_def setTargetMap_def GetAndPin_def exampleSegment_def
       range_defs)

text \<open>
  C3 as amended. After \<^verbatim>\<open>Put(Sealed, s)\<close> with id 11 and level L0 into the empty
  registry, \<^verbatim>\<open>GetAndPin([11])\<close> returns the empty list with no error, and so does
  \<^verbatim>\<open>GetAndPinBy(WithType(Sealed))\<close>; neither makes a call on a segment (the manager after
  the call, trace included, is the manager before it), so nothing is pinned.
\<close>

theorem L0_not_pinned:
  "Put SegmentTypeSealed [s\<lparr>ID := 11, Level := SegmentLevel_L0\<rparr>] NewSegmentManager
     = Inr (NewSegmentManager\<lparr>sealedSegments := [(11, s\<lparr>ID := 11, Level := SegmentLevel_L0\<rparr>)]\<rparr>)
 \<and> GetAndPin [11] []
       (NewSegmentManager\<lparr>sealedSegments := [(11, s\<lparr>ID := 11, Level := SegmentLevel_L0\<rparr>)]\<rparr>)
     = (([], None),
        NewSegmentManager\<lparr>sealedSegments := [(11, s\<lparr>ID := 11, Level := SegmentLevel_L0\<rparr>)]\<rparr>)
 \<and> GetAndPinBy [WithType SegmentTypeSealed]
       (NewSegmentManager\<lparr>sealedSegments := [(11, s\<lparr>ID := 11, Level := SegmentLevel_L0\<rparr>)]\<rparr>)
     = (([], None),
        NewSegmentManager\<lparr>sealedSegments := [(11, s\<lparr>ID := 11, Level := SegmentLevel_L0\<rparr>)]\<rparr>)"
  by (simp add: Put_def NewSegmentManager_def setTargetMap_def GetAndPin_def GetAndPinBy_def
      GetAndPinBy_process_def range_defs)

subsection \<open>C4: exclusivity\<close>

text \<open>
  C4 as stated fails: \<^verbatim>\<open>Put\<close> looks at its target map only. A growing segment with id 1
  and then a sealed segment with id 1, put into the empty registry, are both stored.
\<close>

theorem exclusivity_counterexample:
  "run [Op_Put SegmentTypeGrowing [exampleSegment SegmentTypeGrowing 1 1 SegmentLevel_L1],
        Op_Put SegmentTypeSealed [exampleSegment SegmentTypeSealed 1 1 SegmentLevel_L1]]
     NewSegmentManager = Some oneInBoth
 \<and> map_of (growingSegments oneInBoth) 1
     = Some (exampleSegment SegmentTypeGrowing 1 1 SegmentLevel_L1)
 \<and> map_of (sealedSegments oneInBoth) 1
     = Some (exampleSegment SegmentTypeSealed 1 1 SegmentLevel_L1)"
  by (simp add: oneInBoth_def eval_defs)

text \<open>
  C4 as amended. For every sequence of operations from the empty registry in which each
  \<^verbatim>\<open>Put\<close> is made in a state where the other map has no entry for the ids of its
  segments, and for every id, at most one of the growing map and the sealed map has an
  entry for the id.
\<close>

theorem exclusive_when_puts_respect_other_map:
  assumes "run ops NewSegmentManager = Some mgr"
    and "exclusivePuts ops NewSegmentManager"
  shows "map_of (growingSegments mgr) k = None \<or> map_of (sealedSegments mgr) k = None"
proof -
  have "exclusive NewSegmentManager" by (simp add: exclusive_def NewSegmentManager_def)
  with assms have "exclusive mgr" by (rule run_exclusive)
  then show ?thesis by (rule exclusiveD)
qed

text \<open>
  A sequence with exclusive puts that uses id 1 in both maps, one after the other: put as
  growing, removed, put as sealed.
\<close>

theorem exclusive_when_puts_respect_other_map_witness:
  "run reusedID NewSegmentManager = Some reusedID_final
 \<and> exclusivePuts reusedID NewSegmentManager
 \<and> (map_of (growingSegments reusedID_final) 1 = None
      \<or> map_of (sealedSegments reusedID_final) 1 = None)"
proof -
  have r: "run reusedID NewSegmentManager = Some reusedID_final"
    by (simp add: reusedID_def reusedID_final_def eval_defs)
  have e: "exclusivePuts reusedID NewSegmentManager"
    by (simp add: reusedID_def eval_defs)
  from r e exclusive_when_puts_respect_other_map [OF r e, of 1] show ?thesis by (intro conjI)
qed

subsection \<open>C5: versions never decrease\<close>

text \<open>
  C5 as stated fails for the segment that the registry holds for an id: \<^verbatim>\<open>Put\<close> compares
  versions within its target map only. With version 5 stored as sealed under id 7,
  \<^verbatim>\<open>Put(Growing, s)\<close> with id 7 and version 1 is admitted, nothing is released, and
  \<^verbatim>\<open>Get(7)\<close>, which was the sealed segment of version 5, is the growing segment of
  version 1.
\<close>

theorem Get_version_drops_counterexample:
  "Get 7 sealedSeven = Some (exampleSegment SegmentTypeSealed 7 5 SegmentLevel_L1)
 \<and> apply_operation
       (Op_Put SegmentTypeGrowing [exampleSegment SegmentTypeGrowing 7 1 SegmentLevel_L1])
       sealedSeven
     = Some (sealedSeven
               \<lparr>growingSegments := [(7, exampleSegment SegmentTypeGrowing 7 1 SegmentLevel_L1)]\<rparr>)
 \<and> Get 7 (sealedSeven
               \<lparr>growingSegments := [(7, exampleSegment SegmentTypeGrowing 7 1 SegmentLevel_L1)]\<rparr>)
     = Some (exampleSegment SegmentTypeGrowing 7 1 SegmentLevel_L1)
 \<and> Version (exampleSegment SegmentTypeGrowing 7 1 SegmentLevel_L1)
     < Version (exampleSegment SegmentTypeSealed 7 5 SegmentLevel_L1)"
  by (simp add: Get_def sealedSeven_def eval_defs)

text \<open>
  C5 as amended: the invariant holds in each map. Every operation returns, except a \<^verbatim>\<open>Put\<close> with a type that is neither growing nor
  sealed (it panics). When it returns, and a map stores a segment for an id both before
  and after the operation, the version that this map stores after is at least the version
  it stored before. The operations are \<^verbatim>\<open>Put\<close>, \<^verbatim>\<open>UpdateBy\<close> with \<^verbatim>\<open>IncreaseVersion\<close>, \<^verbatim>\<open>Remove\<close>,
  \<^verbatim>\<open>RemoveBy\<close> and \<^verbatim>\<open>Clear\<close>, in any state, so the same holds along every sequence.
\<close>

theorem version_never_decreases:
  "(apply_operation op mgr = None \<longleftrightarrow>
      (\<exists>t segs. op = Op_Put t segs \<and> t \<noteq> SegmentTypeGrowing \<and> t \<noteq> SegmentTypeSealed))
 \<and> (apply_operation op mgr = Some mgr' \<longrightarrow>
      (map_of (growingSegments mgr) k = Some old \<and> map_of (growingSegments mgr') k = Some new
         \<longrightarrow> Version old \<le> Version new)
    \<and> (map_of (sealedSegments mgr) k = Some old \<and> map_of (sealedSegments mgr') k = Some new
         \<longrightarrow> Version old \<le> Version new))"
proof (intro conjI impI)
  show "apply_operation op mgr = None \<longleftrightarrow>
      (\<exists>t segs. op = Op_Put t segs \<and> t \<noteq> SegmentTypeGrowing \<and> t \<noteq> SegmentTypeSealed)"
    by (rule apply_operation_None)
next
  assume ap: "apply_operation op mgr = Some mgr'"
    and g: "map_of (growingSegments mgr) k = Some old \<and> map_of (growingSegments mgr') k = Some new"
  from apply_operation_rel [OF ap] show "Version old \<le> Version new"
  proof
    assume "entriesFrom mgr mgr'"
    from entriesFrom_growingD [OF this, of k new] g show ?thesis by auto
  next
    assume "entriesKept mgr mgr'"
    from entriesKept_growingD [OF this, of k old] g show ?thesis by auto
  qed
next
  assume ap: "apply_operation op mgr = Some mgr'"
    and g: "map_of (sealedSegments mgr) k = Some old \<and> map_of (sealedSegments mgr') k = Some new"
  from apply_operation_rel [OF ap] show "Version old \<le> Version new"
  proof
    assume "entriesFrom mgr mgr'"
    from entriesFrom_sealedD [OF this, of k new] g show ?thesis by auto
  next
    assume "entriesKept mgr mgr'"
    from entriesKept_sealedD [OF this, of k old] g show ?thesis by auto
  qed
qed

text \<open>\<^verbatim>\<open>UpdateBy(IncreaseVersion(5), WithType(Sealed))\<close> on a sealed segment of version 1.\<close>

theorem version_never_decreases_witness:
  "apply_operation (Op_UpdateBy_IncreaseVersion 5 [WithType SegmentTypeSealed]) sealedSevenV1
     = Some sealedSeven
 \<and> map_of (sealedSegments sealedSevenV1) 7
     = Some (exampleSegment SegmentTypeSealed 7 1 SegmentLevel_L1)
 \<and> map_of (sealedSegments sealedSeven) 7
     = Some (exampleSegment SegmentTypeSealed 7 5 SegmentLevel_L1)
 \<and> Version (exampleSegment SegmentTypeSealed 7 1 SegmentLevel_L1)
     \<le> Version (exampleSegment SegmentTypeSealed 7 5 SegmentLevel_L1)"
proof -
  have a: "apply_operation (Op_UpdateBy_IncreaseVersion 5 [WithType SegmentTypeSealed])
             sealedSevenV1 = Some sealedSeven"
    by (simp add: sealedSevenV1_def sealedSeven_def IncreaseVersion_returns eval_defs)
  have b: "map_of (sealedSegments sealedSevenV1) 7
             = Some (exampleSegment SegmentTypeSealed 7 1 SegmentLevel_L1)"
    by (simp add: sealedSevenV1_def NewSegmentManager_def)
  have c: "map_of (sealedSegments sealedSeven) 7
             = Some (exampleSegment SegmentTypeSealed 7 5 SegmentLevel_L1)"
    by (simp add: sealedSeven_def NewSegmentManager_def)
  from version_never_decreases
         [of "Op_UpdateBy_IncreaseVersion 5 [WithType SegmentTypeSealed]" sealedSevenV1
             sealedSeven 7 "exampleSegment SegmentTypeSealed 7 1 SegmentLevel_L1"
             "exampleSegment SegmentTypeSealed 7 5 SegmentLevel_L1"]
       a b c
  have "Version (exampleSegment SegmentTypeSealed 7 1 SegmentLevel_L1)
          \<le> Version (exampleSegment SegmentTypeSealed 7 5 SegmentLevel_L1)"
    by blast
  with a b c show ?thesis by (intro conjI)
qed

subsection \<open>C6: hinted iteration and filtering without hints\<close>

text \<open>
  C6 says that \<^verbatim>\<open>GetBy\<close> returns the stored segments that every filter accepts. The code
  does not when several filters carry a hint: \<^verbatim>\<open>rangeWithFilter\<close> gathers the ids of all id
  hints in one set, keeps the last type hint only, and drops the hinted filters from the
  composed predicate, where the function \<^verbatim>\<open>filter\<close>, which \<^verbatim>\<open>GetAndPin\<close> uses, applies every
  filter. With the sealed segments 1 and 2 stored by \<^verbatim>\<open>Put\<close>,
  \<^verbatim>\<open>GetBy(WithID(1), WithID(2))\<close> returns both; each of them is rejected by one of the two
  filters, \<^verbatim>\<open>filter\<close> rejects both, and \<^verbatim>\<open>GetAndPin\<close> with the same filters finds neither.
  With id 9 stored in both maps, \<^verbatim>\<open>GetBy(WithType(Sealed), WithType(Growing))\<close> returns the
  growing segment, which \<^verbatim>\<open>WithType(Sealed)\<close> rejects.
\<close>

theorem GetBy_unions_id_hints:
  "Put SegmentTypeSealed
     [exampleSegment SegmentTypeSealed 1 1 SegmentLevel_L1,
      exampleSegment SegmentTypeSealed 2 1 SegmentLevel_L1] NewSegmentManager = Inr twoSealed
 \<and> Type (exampleSegment SegmentTypeSealed 1 1 SegmentLevel_L1) = SegmentTypeSealed
 \<and> Type (exampleSegment SegmentTypeSealed 2 1 SegmentLevel_L1) = SegmentTypeSealed
 \<and> set (GetBy [WithID 1, WithID 2] twoSealed)
     = {exampleSegment SegmentTypeSealed 1 1 SegmentLevel_L1,
        exampleSegment SegmentTypeSealed 2 1 SegmentLevel_L1}
 \<and> Filter (WithID 2) (exampleSegment SegmentTypeSealed 1 1 SegmentLevel_L1) = False
 \<and> Filter (WithID 1) (exampleSegment SegmentTypeSealed 2 1 SegmentLevel_L1) = False
 \<and> filter_segment (exampleSegment SegmentTypeSealed 1 1 SegmentLevel_L1) [WithID 1, WithID 2]
     = False
 \<and> filter_segment (exampleSegment SegmentTypeSealed 2 1 SegmentLevel_L1) [WithID 1, WithID 2]
     = False
 \<and> fst (GetAndPin [1, 2] [WithID 1, WithID 2] twoSealed)
     = ([], Some (SegmentNotLoaded 1 ''segment not found''))
 \<and> GetBy [WithType SegmentTypeSealed, WithType SegmentTypeGrowing] nineInBoth
     = [exampleSegment SegmentTypeGrowing 9 1 SegmentLevel_L1]
 \<and> Filter (WithType SegmentTypeSealed) (exampleSegment SegmentTypeGrowing 9 1 SegmentLevel_L1)
     = False"
  by (simp add: twoSealed_def nineInBoth_def GetBy_def GetAndPin_def filterHit_def pinHit_def
        eval_defs)
     (auto simp: exampleSegment_def)

subsection \<open>C7: IncreaseVersion\<close>

text \<open>
  C7. For a segment with stored version \<open>u\<close> and a target version \<open>v\<close>, the action
  \<^verbatim>\<open>IncreaseVersion(v)\<close> returns: with true and the version set to exactly \<open>v\<close> when
  \<open>u < v\<close>, with false and the segment unchanged when \<open>u \<ge> v\<close>.
\<close>

theorem IncreaseVersion_sets_version:
  "IncreaseVersion v segment =
     Some (if Version segment < v then (True, segment\<lparr>Version := v\<rparr>) else (False, segment))"
  unfolding IncreaseVersion_def
  by (subst IncreaseVersion_loop.simps) (simp add: CASVersion_def)

text \<open>The three cases: below, equal and above the target version.\<close>

theorem IncreaseVersion_sets_version_witness:
  "IncreaseVersion 5 (exampleSegment SegmentTypeSealed 7 1 SegmentLevel_L1)
     = Some (True, exampleSegment SegmentTypeSealed 7 5 SegmentLevel_L1)
 \<and> IncreaseVersion 5 (exampleSegment SegmentTypeSealed 7 5 SegmentLevel_L1)
     = Some (False, exampleSegment SegmentTypeSealed 7 5 SegmentLevel_L1)
 \<and> IncreaseVersion 3 (exampleSegment SegmentTypeSealed 7 5 SegmentLevel_L1)
     = Some (False, exampleSegment SegmentTypeSealed 7 5 SegmentLevel_L1)"
  using IncreaseVersion_sets_version [of 5 "exampleSegment SegmentTypeSealed 7 1 SegmentLevel_L1"]
    IncreaseVersion_sets_version [of 5 "exampleSegment SegmentTypeSealed 7 5 SegmentLevel_L1"]
    IncreaseVersion_sets_version [of 3 "exampleSegment SegmentTypeSealed 7 5 SegmentLevel_L1"]
  by (simp add: exampleSegment_def)

subsection \<open>C8: Remove\<close>

text \<open>
  C8. For every registry state and id, and a scope among Streaming, Historical and All:
  \<^verbatim>\<open>Remove(id, Streaming)\<close> deletes the growing entry of the id and leaves the sealed map
  as it is; \<^verbatim>\<open>Remove(id, Historical)\<close> deletes the sealed entry and leaves the growing map
  as it is; \<^verbatim>\<open>Remove(id, All)\<close> deletes both. Every other id keeps its entries. Each
  component of the returned pair is 1 when the scope covers its map and the map had an
  entry for the id, and 0 otherwise.
\<close>

theorem Remove_effect:
  assumes "scope \<in> {DataScope_Streaming, DataScope_Historical, DataScope_All}"
    and "Remove segmentID scope mgr = ((removeGrowing, removeSealed), mgr')"
  shows "map_of (growingSegments mgr') =
           (if scope = DataScope_Historical then map_of (growingSegments mgr)
            else (map_of (growingSegments mgr))(segmentID := None))
       \<and> map_of (sealedSegments mgr') =
           (if scope = DataScope_Streaming then map_of (sealedSegments mgr)
            else (map_of (sealedSegments mgr))(segmentID := None))
       \<and> (scope = DataScope_Streaming \<longrightarrow> sealedSegments mgr' = sealedSegments mgr)
       \<and> (scope = DataScope_Historical \<longrightarrow> growingSegments mgr' = growingSegments mgr)
       \<and> removeGrowing =
           (if scope \<noteq> DataScope_Historical \<and> map_of (growingSegments mgr) segmentID \<noteq> None
            then 1 else 0)
       \<and> removeSealed =
           (if scope \<noteq> DataScope_Streaming \<and> map_of (sealedSegments mgr) segmentID \<noteq> None
            then 1 else 0)"
  using assms
  by (cases scope)
     (auto simp: Remove_def removeSegmentWithType_def removeIfNotNil_def countIfNotNil_def
        remove_def Release_def Let_def delete_conv' split: option.splits)

text \<open>\<^verbatim>\<open>Remove(9, All)\<close> on a state that stores id 9 in both maps and id 10 as sealed.\<close>

theorem Remove_effect_witness:
  "DataScope_All \<in> {DataScope_Streaming, DataScope_Historical, DataScope_All}
 \<and> Remove 9 DataScope_All nineInBoth
     = ((1, 1),
        nineInBoth
          \<lparr>growingSegments := [],
           sealedSegments := [(10, exampleSegment SegmentTypeSealed 10 1 SegmentLevel_L1)],
           calls := [Call_Release (exampleSegment SegmentTypeGrowing 9 1 SegmentLevel_L1)
                       ReleaseScopeAll,
                     Call_Release (exampleSegment SegmentTypeSealed 9 1 SegmentLevel_L1)
                       ReleaseScopeAll]\<rparr>)
 \<and> map_of (growingSegments (snd (Remove 9 DataScope_All nineInBoth)))
     = (map_of (growingSegments nineInBoth))(9 := None)
 \<and> map_of (sealedSegments (snd (Remove 9 DataScope_All nineInBoth)))
     = (map_of (sealedSegments nineInBoth))(9 := None)"
proof -
  have h: "DataScope_All \<in> {DataScope_Streaming, DataScope_Historical, DataScope_All}"
    by simp
  have r: "Remove 9 DataScope_All nineInBoth
     = ((1, 1),
        nineInBoth
          \<lparr>growingSegments := [],
           sealedSegments := [(10, exampleSegment SegmentTypeSealed 10 1 SegmentLevel_L1)],
           calls := [Call_Release (exampleSegment SegmentTypeGrowing 9 1 SegmentLevel_L1)
                       ReleaseScopeAll,
                     Call_Release (exampleSegment SegmentTypeSealed 9 1 SegmentLevel_L1)
                       ReleaseScopeAll]\<rparr>)"
    by (simp add: Remove_def removeSegmentWithType_def removeIfNotNil_def countIfNotNil_def
          remove_def Release_def releaseScope_def nineInBoth_def NewSegmentManager_def
          exampleSegment_def Let_def)
  have a: "map_of (growingSegments (snd (Remove 9 DataScope_All nineInBoth)))
          = (map_of (growingSegments nineInBoth))(9 := None)"
    using Remove_effect [OF h r, THEN conjunct1] unfolding r by simp
  have b: "map_of (sealedSegments (snd (Remove 9 DataScope_All nineInBoth)))
          = (map_of (sealedSegments nineInBoth))(9 := None)"
    using Remove_effect [OF h r, THEN conjunct2, THEN conjunct1] unfolding r by simp
  from h r a b show ?thesis by (intro conjI)
qed

subsection \<open>C9: GetAndPin skips an id with an L0 sealed segment\<close>

text \<open>
  C9. When the sealed map holds an L0 segment for a requested id, \<^verbatim>\<open>GetAndPin\<close> skips the
  id: the call returns what it returns without that id in the list, result and trace of
  calls alike, whatever the growing map holds for the id and whatever the filters are.
  Asked for that id alone, it returns the empty list and no error, and locks nothing.
\<close>

theorem GetAndPin_skips_L0:
  assumes "map_of (sealedSegments mgr) segmentID = Some sealed"
    and "Level sealed = SegmentLevel_L0"
  shows "GetAndPin (ids1 @ segmentID # ids2) filters mgr = GetAndPin (ids1 @ ids2) filters mgr
       \<and> GetAndPin [segmentID] filters mgr = (([], None), mgr)"
proof -
  have "GetAndPin_loop (ids1 @ segmentID # ids2) filters ([], mgr)
      = GetAndPin_loop (ids1 @ ids2) filters ([], mgr)"
    using assms by (intro GetAndPin_loop_skip_L0) simp_all
  moreover have "GetAndPin_loop [segmentID] filters ([], mgr) = (None, [], mgr)"
    using assms by simp
  ultimately show ?thesis by (simp add: GetAndPin_def)
qed

text \<open>Id 11 is stored as an L0 sealed segment and as a growing segment.\<close>

theorem GetAndPin_skips_L0_witness:
  "map_of (sealedSegments elevenL0) 11 = Some (exampleSegment SegmentTypeSealed 11 1 SegmentLevel_L0)
 \<and> Level (exampleSegment SegmentTypeSealed 11 1 SegmentLevel_L0) = SegmentLevel_L0
 \<and> map_of (growingSegments elevenL0) 11
     = Some (exampleSegment SegmentTypeGrowing 11 1 SegmentLevel_L1)
 \<and> GetAndPin ([12] @ 11 # []) [] elevenL0 = GetAndPin ([12] @ []) [] elevenL0
 \<and> GetAndPin [11] [] elevenL0 = (([], None), elevenL0)"
proof -
  have s: "map_of (sealedSegments elevenL0) 11
             = Some (exampleSegment SegmentTypeSealed 11 1 SegmentLevel_L0)"
    by (simp add: elevenL0_def NewSegmentManager_def)
  have l: "Level (exampleSegment SegmentTypeSealed 11 1 SegmentLevel_L0) = SegmentLevel_L0"
    by (simp add: exampleSegment_def)
  have g: "map_of (growingSegments elevenL0) 11
             = Some (exampleSegment SegmentTypeGrowing 11 1 SegmentLevel_L1)"
    by (simp add: elevenL0_def NewSegmentManager_def)
  from GetAndPin_skips_L0 [OF s l, of "[12]" "[]" "[]"]
  have "GetAndPin ([12] @ 11 # []) [] elevenL0 = GetAndPin ([12] @ []) [] elevenL0"
    and "GetAndPin [11] [] elevenL0 = (([], None), elevenL0)"
    by simp_all
  with s l g show ?thesis by (intro conjI)
qed

subsection \<open>C10: Remove with another scope\<close>

text \<open>
  C10. With a scope that is none of Streaming, Historical and All, \<^verbatim>\<open>Remove\<close> returns
  \<open>(0, 0)\<close> and leaves the manager as it is: both maps, and the trace of calls, so that
  no segment is released.
\<close>

theorem Remove_other_scope:
  "scope \<notin> {DataScope_Streaming, DataScope_Historical, DataScope_All} \<Longrightarrow>
   Remove segmentID scope mgr = ((0, 0), mgr)"
  by (cases scope) (simp_all add: Remove_def)

text \<open>The scope with the number 0 is none of the three.\<close>

theorem Remove_other_scope_witness:
  "DataScope_Other 0 \<notin> {DataScope_Streaming, DataScope_Historical, DataScope_All}
 \<and> Remove 9 (DataScope_Other 0) nineInBoth = ((0, 0), nineInBoth)"
proof -
  have h: "DataScope_Other 0 \<notin> {DataScope_Streaming, DataScope_Historical, DataScope_All}"
    by simp
  from h Remove_other_scope [OF h] show ?thesis by (intro conjI)
qed

section \<open>Further properties\<close>

subsection \<open>X1: GetAndPin balances its read locks\<close>

text \<open>
  X1. \<^verbatim>\<open>GetAndPin\<close> leaves both maps as they are and only appends to the trace of calls.
  When it returns no error, the list it returns is the list of the segments whose read
  lock was granted in this call, and it unlocks nothing. When it returns an error, it
  returns no segment, and the segments it unlocked in this call are those whose read lock
  was granted in it: every lock acquired before the failure is released.
\<close>

theorem GetAndPin_locks_balanced:
  "\<exists>tr. calls (snd (GetAndPin ids filters mgr)) = calls mgr @ tr
      \<and> (case snd (fst (GetAndPin ids filters mgr)) of
            None \<Rightarrow> fst (fst (GetAndPin ids filters mgr)) = granted tr \<and> unlocked tr = []
          | Some e \<Rightarrow> fst (fst (GetAndPin ids filters mgr)) = [] \<and> unlocked tr = granted tr)
      \<and> growingSegments (snd (GetAndPin ids filters mgr)) = growingSegments mgr
      \<and> sealedSegments (snd (GetAndPin ids filters mgr)) = sealedSegments mgr"
proof -
  let ?r = "GetAndPin_loop ids filters ([], mgr)"
  from GetAndPin_loop_loopTrace [of "([], mgr)" ids filters]
  obtain tr where tr: "calls (snd (snd ?r)) = calls mgr @ tr"
    "fst (snd ?r) = granted tr" "unlocked tr = []"
    "growingSegments (snd (snd ?r)) = growingSegments mgr"
    "sealedSegments (snd (snd ?r)) = sealedSegments mgr"
    unfolding loopTrace_def by auto
  show ?thesis
  proof (cases "fst ?r")
    case None
    then show ?thesis
      by (intro exI [of _ tr]) (simp add: GetAndPin_def Let_def tr)
  next
    case (Some e)
    then show ?thesis
      by (intro exI [of _ "tr @ map Call_RUnlock (granted tr)"])
         (simp add: GetAndPin_def Let_def tr fold_RUnlock granted_append unlocked_append
            granted_RUnlocks unlocked_RUnlocks)
  qed
qed

text \<open>
  The second requested segment refuses the read lock: the first is locked, then unlocked,
  and the error is returned.
\<close>

theorem GetAndPin_locks_balanced_witness:
  "GetAndPin [2, 1] [] oneThenRefusing
     = (([], Some PinAcquisitionFailed),
        oneThenRefusing
          \<lparr>calls := [Call_RLock (exampleSegment SegmentTypeSealed 2 1 SegmentLevel_L1),
                     Call_RLock refusingSegment,
                     Call_RUnlock (exampleSegment SegmentTypeSealed 2 1 SegmentLevel_L1)]\<rparr>)
 \<and> (\<exists>tr. calls (snd (GetAndPin [2, 1] [] oneThenRefusing)) = calls oneThenRefusing @ tr
         \<and> unlocked tr = granted tr)"
proof -
  have e: "GetAndPin [2, 1] [] oneThenRefusing
     = (([], Some PinAcquisitionFailed),
        oneThenRefusing
          \<lparr>calls := [Call_RLock (exampleSegment SegmentTypeSealed 2 1 SegmentLevel_L1),
                     Call_RLock refusingSegment,
                     Call_RUnlock (exampleSegment SegmentTypeSealed 2 1 SegmentLevel_L1)]\<rparr>)"
    by (simp add: GetAndPin_def filterHit_def pinHit_def RLock_def RUnlock_def Let_def
          oneThenRefusing_def refusingSegment_def example_defs)
  from GetAndPin_locks_balanced [of "[2, 1]" "[]" oneThenRefusing]
  have "\<exists>tr. calls (snd (GetAndPin [2, 1] [] oneThenRefusing)) = calls oneThenRefusing @ tr
         \<and> unlocked tr = granted tr"
    unfolding e by auto
  with e show ?thesis by (intro conjI)
qed

subsection \<open>X2: GetAndPin on an id that is not stored\<close>

text \<open>
  X2. \<^verbatim>\<open>GetAndPin\<close> asked for one id that neither map stores returns no segment and the
  error SegmentNotLoaded for that id, and makes no call on a segment.
\<close>

theorem GetAndPin_not_found:
  assumes "map_of (growingSegments mgr) segmentID = None"
    and "map_of (sealedSegments mgr) segmentID = None"
  shows "GetAndPin [segmentID] filters mgr
           = (([], Some (SegmentNotLoaded segmentID ''segment not found'')), mgr)"
  using assms by (simp add: GetAndPin_def filterHit_def pinHit_def Let_def)

text \<open>Id 8 in a registry that stores id 7 only.\<close>

theorem GetAndPin_not_found_witness:
  "map_of (growingSegments sealedSeven) 8 = None
 \<and> map_of (sealedSegments sealedSeven) 8 = None
 \<and> GetAndPin [8] [] sealedSeven
     = (([], Some (SegmentNotLoaded 8 ''segment not found'')), sealedSeven)"
proof -
  have g: "map_of (growingSegments sealedSeven) 8 = None"
    by (simp add: sealedSeven_def NewSegmentManager_def)
  have s: "map_of (sealedSegments sealedSeven) 8 = None"
    by (simp add: sealedSeven_def NewSegmentManager_def)
  from g s GetAndPin_not_found [OF g s, of "[]"] show ?thesis by (intro conjI)
qed

subsection \<open>X3: Clear\<close>

text \<open>
  X3. \<^verbatim>\<open>Clear\<close> empties both maps and releases, with scope All, every stored segment
  once: the growing ones first, then the sealed ones. It spawns no goroutine.
\<close>

theorem Clear_empties_and_releases:
  "growingSegments (Clear mgr) = []
 \<and> sealedSegments (Clear mgr) = []
 \<and> calls (Clear mgr)
     = calls mgr
       @ map (\<lambda>e. Call_Release (snd e) ReleaseScopeAll) (growingSegments mgr)
       @ map (\<lambda>e. Call_Release (snd e) ReleaseScopeAll) (sealedSegments mgr)
 \<and> goroutines (Clear mgr) = goroutines mgr"
proof -
  let ?g = "Clear_growing (growingSegments mgr) mgr"
  have g: "set (growingSegments ?g) = {}" "sealedSegments ?g = sealedSegments mgr"
    "goroutines ?g = goroutines mgr"
    "calls ?g = calls mgr @ map (\<lambda>e. Call_Release (snd e) ReleaseScopeAll) (growingSegments mgr)"
    using Clear_growing_result [of "growingSegments mgr" mgr] by auto
  let ?s = "Clear_sealed (sealedSegments ?g) ?g"
  have s: "set (sealedSegments ?s) = {}" "growingSegments ?s = growingSegments ?g"
    "goroutines ?s = goroutines ?g"
    "calls ?s = calls ?g @ map (\<lambda>e. Call_Release (snd e) ReleaseScopeAll) (sealedSegments ?g)"
    using Clear_sealed_result [of "sealedSegments ?g" ?g] by auto
  from g s show ?thesis by (simp add: Clear_def Let_def)
qed

subsection \<open>X4: Put and then Remove\<close>

text \<open>
  X4. When neither map stores the id of \<open>s\<close>, \<^verbatim>\<open>Put(type, s)\<close> followed by
  \<^verbatim>\<open>Remove(s.id, All)\<close> gives back the registry as it was: both maps hold what they held,
  no goroutine was spawned, and the only call made is one release of \<open>s\<close> with scope All.
  \<^verbatim>\<open>Remove\<close> returns 1 for the map of the type and 0 for the other.
\<close>

theorem Put_then_Remove:
  assumes "segmentType = SegmentTypeGrowing \<or> segmentType = SegmentTypeSealed"
    and "map_of (growingSegments mgr) (ID s) = None"
    and "map_of (sealedSegments mgr) (ID s) = None"
  shows "\<exists>mgr1 mgr2.
           Put segmentType [s] mgr = Inr mgr1
         \<and> Remove (ID s) DataScope_All mgr1
             = ((if segmentType = SegmentTypeGrowing then (1, 0) else (0, 1)), mgr2)
         \<and> map_of (growingSegments mgr2) = map_of (growingSegments mgr)
         \<and> map_of (sealedSegments mgr2) = map_of (sealedSegments mgr)
         \<and> calls mgr2 = calls mgr @ [Call_Release s ReleaseScopeAll]
         \<and> goroutines mgr2 = goroutines mgr"
  using assms
  by (auto simp: Put_def Remove_def removeSegmentWithType_def removeIfNotNil_def
        countIfNotNil_def remove_def Release_def releaseScope_def targetMap_def
        setTargetMap_def Let_def update_conv' delete_conv' fun_upd_idem)

text \<open>A growing segment with id 8, put into a registry that stores id 7 and removed.\<close>

theorem Put_then_Remove_witness:
  "map_of (growingSegments sealedSeven) (ID (exampleSegment SegmentTypeGrowing 8 1 SegmentLevel_L1))
     = None
 \<and> map_of (sealedSegments sealedSeven) (ID (exampleSegment SegmentTypeGrowing 8 1 SegmentLevel_L1))
     = None
 \<and> (\<exists>mgr1 mgr2.
        Put SegmentTypeGrowing [exampleSegment SegmentTypeGrowing 8 1 SegmentLevel_L1] sealedSeven
          = Inr mgr1
      \<and> Remove 8 DataScope_All mgr1 = ((1, 0), mgr2)
      \<and> map_of (growingSegments mgr2) = map_of (growingSegments sealedSeven)
      \<and> map_of (sealedSegments mgr2) = map_of (sealedSegments sealedSeven)
      \<and> calls mgr2
          = [Call_Release (exampleSegment SegmentTypeGrowing 8 1 SegmentLevel_L1) ReleaseScopeAll])"
proof -
  have t: "SegmentTypeGrowing = SegmentTypeGrowing \<or> SegmentTypeGrowing = SegmentTypeSealed"
    by simp
  have g: "map_of (growingSegments sealedSeven)
             (ID (exampleSegment SegmentTypeGrowing 8 1 SegmentLevel_L1)) = None"
    by (simp add: sealedSeven_def example_defs)
  have s: "map_of (sealedSegments sealedSeven)
             (ID (exampleSegment SegmentTypeGrowing 8 1 SegmentLevel_L1)) = None"
    by (simp add: sealedSeven_def example_defs)
  from Put_then_Remove [OF t g s] obtain mgr1 mgr2 where
    "Put SegmentTypeGrowing [exampleSegment SegmentTypeGrowing 8 1 SegmentLevel_L1] sealedSeven
       = Inr mgr1"
    and "Remove (ID (exampleSegment SegmentTypeGrowing 8 1 SegmentLevel_L1)) DataScope_All mgr1
           = ((1, 0), mgr2)"
    and "map_of (growingSegments mgr2) = map_of (growingSegments sealedSeven)"
    and "map_of (sealedSegments mgr2) = map_of (sealedSegments sealedSeven)"
    and "calls mgr2 = calls sealedSeven
           @ [Call_Release (exampleSegment SegmentTypeGrowing 8 1 SegmentLevel_L1) ReleaseScopeAll]"
    by auto
  then have "\<exists>mgr1 mgr2.
        Put SegmentTypeGrowing [exampleSegment SegmentTypeGrowing 8 1 SegmentLevel_L1] sealedSeven
          = Inr mgr1
      \<and> Remove 8 DataScope_All mgr1 = ((1, 0), mgr2)
      \<and> map_of (growingSegments mgr2) = map_of (growingSegments sealedSeven)
      \<and> map_of (sealedSegments mgr2) = map_of (sealedSegments sealedSeven)
      \<and> calls mgr2
          = [Call_Release (exampleSegment SegmentTypeGrowing 8 1 SegmentLevel_L1) ReleaseScopeAll]"
    by (intro exI [of _ mgr1] exI [of _ mgr2])
       (simp add: sealedSeven_def NewSegmentManager_def exampleSegment_def)
  with g s show ?thesis by (intro conjI)
qed

subsection \<open>X5: keys in reachable states\<close>

text \<open>
  X5. In every state that a sequence of operations reaches from the empty registry, each
  map holds one entry for a key, and every entry is stored under the id of its segment.
\<close>

theorem reachable_keys_agree:
  assumes "run ops NewSegmentManager = Some mgr"
  shows "distinctKeys mgr \<and> keyAgreement mgr"
proof -
  have "wellFormed NewSegmentManager"
    by (simp add: wellFormed_def distinctKeys_def keyAgreement_def NewSegmentManager_def)
  with assms have "wellFormed mgr" by (rule wellFormed_run)
  then show ?thesis by (simp add: wellFormed_def)
qed

text \<open>The state after putting id 1 as growing, removing it and putting it as sealed.\<close>

theorem reachable_keys_agree_witness:
  "run reusedID NewSegmentManager = Some reusedID_final
 \<and> distinctKeys reusedID_final \<and> keyAgreement reusedID_final"
proof -
  have r: "run reusedID NewSegmentManager = Some reusedID_final"
    by (simp add: reusedID_def reusedID_final_def eval_defs)
  from r reachable_keys_agree [OF r] show ?thesis by simp
qed

subsection \<open>X6: hinted iteration with agreeing hints\<close>

text \<open>
  X6. In a registry state whose maps hold one entry for a key, each under the id of its
  segment and of the type of its map, and for a filter list whose hints agree (all type
  hints name one type, all id hints one id), \<^verbatim>\<open>GetBy\<close> returns exactly the stored segments
  that every filter accepts: there the narrowing by hints does not change the result.
\<close>

theorem GetBy_hinted_is_naive:
  assumes dk: "distinctKeys mgr" and ka: "keyAgreement mgr"
    and ta: "typeAgreement mgr" and ha: "hintsAgree filters"
  shows "set (GetBy filters mgr) = set (naiveGetBy filters mgr)"
proof (rule set_eqI)
  fix s
  let ?h = "collectHints filters noHints"
  let ?cands = "candidates (hSegType ?h) (hHasSegType ?h)"
  have per: "{s. \<exists>k\<in>set (if hHasSegIDs ?h then hSegmentIDs ?h else map fst (targetMap t mgr)).
                 map_of (targetMap t mgr) k = Some s \<and> mergedFilter (hOtherFilters ?h) s}
           = {s \<in> snd ` set (targetMap t mgr).
                (hHasSegIDs ?h \<longrightarrow> ID s \<in> set (hSegmentIDs ?h)) \<and> mergedFilter (hOtherFilters ?h) s}"
    if "t \<in> set ?cands" for t
  proof (rule perMap_set)
    from that candidates_subset have t: "t = SegmentTypeSealed \<or> t = SegmentTypeGrowing" by blast
    then show "distinct (map fst (targetMap t mgr))"
      using dk by (auto simp: distinctKeys_def targetMap_def)
    from t show "\<forall>e\<in>set (targetMap t mgr). ID (snd e) = fst e"
      using ka by (auto simp: keyAgreement_def targetMap_def)
  qed
  have "s \<in> set (GetBy filters mgr) \<longleftrightarrow>
          (\<exists>t\<in>set ?cands. s \<in> snd ` set (targetMap t mgr))
        \<and> (hHasSegIDs ?h \<longrightarrow> ID s \<in> set (hSegmentIDs ?h))
        \<and> mergedFilter (hOtherFilters ?h) s"
    unfolding GetBy_set using per by auto
  also have "\<dots> \<longleftrightarrow>
          (s \<in> snd ` set (sealedSegments mgr) \<union> snd ` set (growingSegments mgr)
           \<and> (\<forall>t. SegmentTypeFilter t \<in> set filters \<longrightarrow> Type s = t))
        \<and> (\<forall>i. SegmentIDFilter i \<in> set filters \<longrightarrow> ID s = i)
        \<and> (\<forall>p. SegmentFilterFunc p \<in> set filters \<longrightarrow> p s)"
    unfolding typeHint_iff [OF ta ha] idHint_iff [OF ha] merged_collectHints ..
  also have "\<dots> \<longleftrightarrow> s \<in> set (naiveGetBy filters mgr)"
    unfolding naiveGetBy_def using Filter_all_iff [of filters s] by auto
  finally show "s \<in> set (GetBy filters mgr) \<longleftrightarrow> s \<in> set (naiveGetBy filters mgr)" .
qed

text \<open>A type hint, an id hint and a predicate, on a state that stores id 9 in both maps.\<close>

theorem GetBy_hinted_is_naive_witness:
  "distinctKeys nineInBoth \<and> keyAgreement nineInBoth \<and> typeAgreement nineInBoth
 \<and> hintsAgree [WithType SegmentTypeSealed, WithID 9, WithLevel SegmentLevel_L1]
 \<and> set (GetBy [WithType SegmentTypeSealed, WithID 9, WithLevel SegmentLevel_L1] nineInBoth)
     = set (naiveGetBy [WithType SegmentTypeSealed, WithID 9, WithLevel SegmentLevel_L1]
              nineInBoth)"
proof -
  have d: "distinctKeys nineInBoth"
    by (simp add: distinctKeys_def nineInBoth_def NewSegmentManager_def)
  have k: "keyAgreement nineInBoth"
    by (simp add: keyAgreement_def nineInBoth_def example_defs)
  have t: "typeAgreement nineInBoth"
    by (simp add: typeAgreement_def nineInBoth_def example_defs)
  have h: "hintsAgree [WithType SegmentTypeSealed, WithID 9, WithLevel SegmentLevel_L1]"
    by (simp add: hintsAgree_def WithType_def WithID_def WithLevel_def)
  from d k t h GetBy_hinted_is_naive [OF d k t h] show ?thesis by (intro conjI)
qed

end
